theory Spec2Isabelle
  imports Main "HOL-Library.Word"
begin

section \<open>The data model of eass.h\<close>

text \<open>
  The library is C: its values live in caller-owned structs and in heap blocks reached
  through pointers. The embedding keeps that shape. A pointer is an address
  (\<open>None\<close> is \<open>NULL\<close>), the heap maps an address to the block allocated there, and
  every function takes the program state and returns the new one. A pointer parameter
  to a struct (\<open>DynamicArray* arr\<close>) is passed as the struct it points to and handed
  back updated.

  Integer types follow the LP64 data model of the platforms the header names (Linux,
  macOS): \<open>int\<close> has 32 bits and conversions to it wrap, \<open>size_t\<close> has 64 bits. A
  \<open>size_t\<close> is a natural number. What the code computes for a new capacity and for the
  byte count of an allocation is reduced modulo \<open>2 ^ 64\<close>, as \<open>size_t\<close> arithmetic does,
  and the conversion of a capacity to \<open>int\<close> is written out. The length of an array is
  only ever increased after a store into its buffer at that index, which a buffer of
  fewer than \<open>2 ^ 64\<close> bytes bounds: \<open>size + 1\<close> and \<open>size * sizeof(DynamicValue)\<close> are
  not reduced.

  Behaviour the C standard leaves undefined (a store outside a buffer, a read through
  \<open>NULL\<close> or through a freed pointer, \<open>va_arg\<close> past the last argument) is a value of
  type \<open>fault\<close>: a function that can run into it returns \<open>fault + result\<close>.
\<close>

type_synonym addr = nat
type_synonym c_float = "32 word"
type_synonym c_double = "64 word"

datatype EassType = EASS_INT | EASS_FLOAT | EASS_STRING | EASS_ARRAY | EASS_NULL

record DynamicArray =
  a_data :: "addr option"
  a_size :: nat
  a_capacity :: nat
  a_error :: int

text \<open>The union \<open>value\<close> of a \<open>DynamicValue\<close>: the member last stored.\<close>

datatype payload = V_i int | V_f c_float | V_s "addr option" | V_a DynamicArray

record DynamicValue =
  v_type :: EassType
  v_error :: int
  v_value :: payload

record EassError =
  code :: int
  message :: string

datatype block = Chars string | Cells "DynamicValue list"

type_synonym heap = "addr \<Rightarrow> block option"

record state =
  heap :: heap
  eass_last_error :: EassError
  stdout :: string

datatype fault =
    Null_Dereference
  | Out_Of_Bounds
  | Invalid_Pointer
  | Va_Arg_Exhausted
  | Inactive_Union_Member
  | Stack_Exhausted

text \<open>
  What the build and the C library contribute: whether \<open>EASS_ENABLE_EMBEDDED\<close> is
  defined, the allocator (\<open>malloc P h n\<close> is the address \<open>malloc\<close> returns for \<open>n\<close>
  bytes when the live blocks are \<open>h\<close>, \<open>None\<close> when it fails), the indeterminate
  contents of a freshly allocated cell, the text \<open>printf\<close> writes for \<open>%f\<close>, and how
  deep the stack lets \<open>free_dynamic_value\<close> recurse.
\<close>

record platform =
  embedded :: bool
  malloc :: "heap \<Rightarrow> nat \<Rightarrow> addr option"
  junk :: "nat \<Rightarrow> DynamicValue"
  fmt_f :: "c_float \<Rightarrow> string"
  stack_depth :: nat

text \<open>
  The two \<open>errno\<close> codes the library reports, with their values on Linux, macOS and
  Windows, and \<open>sizeof(DynamicValue)\<close> under LP64: two 4-byte members and a union whose
  largest member, the \<open>DynamicArray\<close>, takes 32 bytes.
\<close>

definition ENOMEM :: int where
  "ENOMEM = 12"

definition EINVAL :: int where
  "EINVAL = 22"

definition sizeof_DynamicValue :: nat where
  "sizeof_DynamicValue = 40"

text \<open>The conversions of an integer to \<open>int\<close> and to \<open>size_t\<close>.\<close>

definition to_int :: "int \<Rightarrow> int" where
  "to_int x = (x + 2 ^ 31) mod 2 ^ 32 - 2 ^ 31"

definition to_size_t :: "int \<Rightarrow> nat" where
  "to_size_t x = nat (x mod 2 ^ 64)"

text \<open>\<open>_set_error\<close>: the message is cut to the 255 characters the slot holds.\<close>

definition set_error :: "int \<Rightarrow> string \<Rightarrow> state \<Rightarrow> state" where
  "set_error c m s = s\<lparr>eass_last_error := \<lparr>code = c, message = take 255 m\<rparr>\<rparr>"

subsection \<open>Memory\<close>

definition load_cells :: "heap \<Rightarrow> addr option \<Rightarrow> fault + DynamicValue list" where
  "load_cells h pa =
     (case pa of
        None \<Rightarrow> Inl Null_Dereference
      | Some p \<Rightarrow>
          (case h p of
             Some (Cells cs) \<Rightarrow> Inr cs
           | Some (Chars _) \<Rightarrow> Inl Invalid_Pointer
           | None \<Rightarrow> Inl Invalid_Pointer))"

definition load_cell :: "heap \<Rightarrow> addr option \<Rightarrow> nat \<Rightarrow> fault + DynamicValue" where
  "load_cell h pa i =
     (case load_cells h pa of
        Inl e \<Rightarrow> Inl e
      | Inr cs \<Rightarrow> if i < length cs then Inr (cs ! i) else Inl Out_Of_Bounds)"

definition store_cells :: "heap \<Rightarrow> addr option \<Rightarrow> DynamicValue list \<Rightarrow> heap" where
  "store_cells h pa cs = (case pa of None \<Rightarrow> h | Some p \<Rightarrow> h(p := Some (Cells cs)))"

definition store_cell :: "heap \<Rightarrow> addr option \<Rightarrow> nat \<Rightarrow> DynamicValue \<Rightarrow> fault + heap" where
  "store_cell h pa i v =
     (case load_cells h pa of
        Inl e \<Rightarrow> Inl e
      | Inr cs \<Rightarrow>
          if i < length cs then Inr (store_cells h pa (cs[i := v])) else Inl Out_Of_Bounds)"

definition fresh_cells :: "platform \<Rightarrow> nat \<Rightarrow> DynamicValue list" where
  "fresh_cells P n = map (junk P) [0..<n]"

text \<open>
  The byte count \<open>n * sizeof(DynamicValue)\<close> that the code hands to \<open>malloc\<close> and
  \<open>realloc\<close>, a \<open>size_t\<close> product, and the number of whole cells a block of so many
  bytes has.
\<close>

definition byte_count :: "nat \<Rightarrow> nat" where
  "byte_count n = (n * sizeof_DynamicValue) mod 2 ^ 64"

definition whole_cells :: "nat \<Rightarrow> nat" where
  "whole_cells bytes = bytes div sizeof_DynamicValue"

text \<open>\<open>malloc(n * sizeof(DynamicValue))\<close>.\<close>

definition malloc_cells :: "platform \<Rightarrow> heap \<Rightarrow> nat \<Rightarrow> addr option \<times> heap" where
  "malloc_cells P h n =
     (case malloc P h (byte_count n) of
        None \<Rightarrow> (None, h)
      | Some q \<Rightarrow> (Some q, h(q := Some (Cells (fresh_cells P (whole_cells (byte_count n)))))))"

text \<open>
  \<open>realloc(p, n * sizeof(DynamicValue))\<close>: the block keeps its first cells and may move;
  the allocator chooses the new address with the old block released, so it may return the
  old one. When it fails the old block stays as it was.
\<close>

definition realloc_cells ::
  "platform \<Rightarrow> heap \<Rightarrow> addr option \<Rightarrow> nat \<Rightarrow> fault + (addr option \<times> heap)" where
  "realloc_cells P h pa n =
     (case pa of
        None \<Rightarrow> Inr (malloc_cells P h n)
      | Some p \<Rightarrow>
          (case h p of
             Some (Cells cs) \<Rightarrow>
               (case malloc P (h(p := None)) (byte_count n) of
                  None \<Rightarrow> Inr (None, h)
                | Some q \<Rightarrow>
                    (let m = whole_cells (byte_count n) in
                     Inr (Some q,
                       (h(p := None))(q := Some (Cells (take m cs @ drop (length cs) (fresh_cells P m)))))))
           | Some (Chars _) \<Rightarrow> Inl Invalid_Pointer
           | None \<Rightarrow> Inl Invalid_Pointer))"

text \<open>\<open>free\<close>: \<open>free(NULL)\<close> does nothing; any other pointer must be a live block.\<close>

definition c_free :: "heap \<Rightarrow> addr option \<Rightarrow> fault + heap" where
  "c_free h pa =
     (case pa of
        None \<Rightarrow> Inr h
      | Some p \<Rightarrow> if h p = None then Inl Invalid_Pointer else Inr (h(p := None)))"

text \<open>
  \<open>memcpy\<close> of \<open>n\<close> cells from \<open>src + soff\<close> to \<open>dst + doff\<close>. Copying no cell touches
  neither block.
\<close>

definition memcpy_cells ::
  "heap \<Rightarrow> addr option \<Rightarrow> nat \<Rightarrow> addr option \<Rightarrow> nat \<Rightarrow> nat \<Rightarrow> fault + heap" where
  "memcpy_cells h dst doff src soff n =
     (if n = 0 then Inr h
      else
        (case load_cells h src of
           Inl e \<Rightarrow> Inl e
         | Inr ss \<Rightarrow>
             (case load_cells h dst of
                Inl e \<Rightarrow> Inl e
              | Inr ds \<Rightarrow>
                  if length ss < soff + n then Inl Out_Of_Bounds
                  else if length ds < doff + n then Inl Out_Of_Bounds
                  else
                    Inr (store_cells h dst
                      (take doff ds @ take n (drop soff ss) @ drop (doff + n) ds)))))"

section \<open>The dynamic array\<close>

text \<open>
  \<open>array\<close>: the local \<open>arr\<close> starts indeterminate (the argument \<open>arr\<close>); when \<open>malloc\<close>
  fails only \<open>data\<close> and \<open>error\<close> are assigned before it is returned.
\<close>

definition array :: "platform \<Rightarrow> DynamicArray \<Rightarrow> nat \<Rightarrow> state \<Rightarrow> DynamicArray \<times> state" where
  "array P arr initial_capacity s =
     (if initial_capacity = 0 then
        (arr\<lparr>a_data := None, a_size := 0, a_capacity := initial_capacity, a_error := 0\<rparr>, s)
      else
        (case malloc_cells P (heap s) initial_capacity of
           (None, h) \<Rightarrow>
             (arr\<lparr>a_data := None, a_error := 1\<rparr>, set_error ENOMEM ''malloc failed in array'' s)
         | (Some p, h) \<Rightarrow>
             (arr\<lparr>a_data := Some p, a_size := 0, a_capacity := initial_capacity, a_error := 0\<rparr>,
              s\<lparr>heap := h\<rparr>)))"

text \<open>
  The result of the three mutating operations: the struct returned by value, the
  caller's struct behind \<open>arr\<close> afterwards (\<open>None\<close> when \<open>arr\<close> was \<open>NULL\<close>), and the
  state.
\<close>

type_synonym 'r outcome = "fault + ('r \<times> DynamicArray option \<times> state)"

definition return_arr :: "DynamicArray \<Rightarrow> state \<Rightarrow> DynamicArray outcome" where
  "return_arr arr s = Inr (arr, Some arr, s)"

text \<open>\<open>arr->data[i] = val; arr->size++; return *arr;\<close>\<close>

definition store_and_count ::
  "DynamicArray \<Rightarrow> nat \<Rightarrow> DynamicValue \<Rightarrow> state \<Rightarrow> DynamicArray outcome" where
  "store_and_count arr i val s =
     (case store_cell (heap s) (a_data arr) i val of
        Inl e \<Rightarrow> Inl e
      | Inr h \<Rightarrow> return_arr (arr\<lparr>a_size := a_size arr + 1\<rparr>) (s\<lparr>heap := h\<rparr>))"

text \<open>
  \<open>int new_cap = arr->capacity + (arr->capacity >> 1); if (new_cap < 4) new_cap = 4;\<close>
  The sum is a \<open>size_t\<close>; storing it in the \<open>int\<close> wraps from \<open>2 ^ 31\<close> on.
\<close>

definition append_new_cap :: "nat \<Rightarrow> int" where
  "append_new_cap capacity =
     (let new_cap = to_int (int ((capacity + capacity div 2) mod 2 ^ 64))
      in if new_cap < 4 then 4 else new_cap)"

definition array_append ::
  "platform \<Rightarrow> DynamicArray option \<Rightarrow> DynamicValue \<Rightarrow> state \<Rightarrow> DynamicArray outcome" where
  "array_append P arrp val s =
     (case arrp of
        None \<Rightarrow>
          Inr (\<lparr>a_data = None, a_size = 0, a_capacity = 0, a_error = 1\<rparr>, None,
               set_error EINVAL ''array_append called with NULL array'' s)
      | Some arr \<Rightarrow>
          if a_error arr \<noteq> 0 then return_arr arr s
          else if a_capacity arr \<le> a_size arr then
            (let new_cap = to_size_t (append_new_cap (a_capacity arr)) in
             if embedded P then
               (case malloc_cells P (heap s) new_cap of
                  (None, h) \<Rightarrow>
                    return_arr (arr\<lparr>a_error := 1\<rparr>)
                      (set_error ENOMEM ''Realloc failed - embedded system'' s)
                | (Some q, h) \<Rightarrow>
                    (case memcpy_cells h (Some q) 0 (a_data arr) 0 (a_size arr) of
                       Inl e \<Rightarrow> Inl e
                     | Inr h1 \<Rightarrow>
                         (case c_free h1 (a_data arr) of
                            Inl e \<Rightarrow> Inl e
                          | Inr h2 \<Rightarrow>
                              store_and_count
                                (arr\<lparr>a_data := Some q, a_capacity := new_cap\<rparr>)
                                (a_size arr) val (s\<lparr>heap := h2\<rparr>))))
             else
               (case realloc_cells P (heap s) (a_data arr) new_cap of
                  Inl e \<Rightarrow> Inl e
                | Inr (None, h) \<Rightarrow>
                    return_arr (arr\<lparr>a_error := 1\<rparr>)
                      (set_error ENOMEM ''realloc failed in array_append'' s)
                | Inr (Some q, h) \<Rightarrow>
                    store_and_count
                      (arr\<lparr>a_data := Some q, a_capacity := new_cap\<rparr>)
                      (a_size arr) val (s\<lparr>heap := h\<rparr>)))
          else store_and_count arr (a_size arr) val s)"

text \<open>
  The loop of \<open>array_insert\<close> that makes room:
  \<open>for (i = arr->size; i > index; i--) arr->data[i] = arr->data[i - 1];\<close>
\<close>

function shift_right :: "heap \<Rightarrow> addr option \<Rightarrow> nat \<Rightarrow> nat \<Rightarrow> fault + heap" where
  "shift_right h pa index i =
     (if index < i then
        (case load_cell h pa (i - 1) of
           Inl e \<Rightarrow> Inl e
         | Inr v \<Rightarrow>
             (case store_cell h pa i v of
                Inl e \<Rightarrow> Inl e
              | Inr h' \<Rightarrow> shift_right h' pa index (i - 1)))
      else Inr h)"
  by pat_completeness auto
termination
  by (relation "measure (\<lambda>(h, pa, index, i). i)") auto

declare shift_right.simps [simp del]

text \<open>\<open>size_t new_cap = (arr->capacity == 0) ? 4 : arr->capacity * 2;\<close>\<close>

definition insert_new_cap :: "nat \<Rightarrow> nat" where
  "insert_new_cap capacity = (if capacity = 0 then 4 else (capacity * 2) mod 2 ^ 64)"

definition array_insert ::
  "platform \<Rightarrow> DynamicArray option \<Rightarrow> nat \<Rightarrow> DynamicValue \<Rightarrow> state \<Rightarrow> DynamicArray outcome" where
  "array_insert P arrp index val s =
     (case arrp of
        None \<Rightarrow>
          Inr (\<lparr>a_data = None, a_size = 0, a_capacity = 0, a_error = 1\<rparr>, None,
               set_error EINVAL ''array_insert called with NULL array'' s)
      | Some arr \<Rightarrow>
          if a_error arr \<noteq> 0 then return_arr arr s
          else if a_size arr < index then
            return_arr arr (set_error EINVAL ''Index out of bounds in array_insert'' s)
          else if a_capacity arr \<le> a_size arr then
            (let new_cap = insert_new_cap (a_capacity arr) in
             if embedded P then
               (case malloc_cells P (heap s) new_cap of
                  (None, h) \<Rightarrow>
                    return_arr (arr\<lparr>a_error := 1\<rparr>)
                      (set_error ENOMEM ''malloc failed in array_insert (embedded)'' s)
                | (Some q, h) \<Rightarrow>
                    (case memcpy_cells h (Some q) 0 (a_data arr) 0 index of
                       Inl e \<Rightarrow> Inl e
                     | Inr h1 \<Rightarrow>
                         (case memcpy_cells h1 (Some q) (index + 1) (a_data arr) index
                                 (a_size arr - index) of
                            Inl e \<Rightarrow> Inl e
                          | Inr h2 \<Rightarrow>
                              (case c_free h2 (a_data arr) of
                                 Inl e \<Rightarrow> Inl e
                               | Inr h3 \<Rightarrow>
                                   store_and_count
                                     (arr\<lparr>a_data := Some q, a_capacity := new_cap\<rparr>)
                                     index val (s\<lparr>heap := h3\<rparr>)))))
             else
               (case realloc_cells P (heap s) (a_data arr) new_cap of
                  Inl e \<Rightarrow> Inl e
                | Inr (None, h) \<Rightarrow>
                    return_arr (arr\<lparr>a_error := 1\<rparr>)
                      (set_error ENOMEM ''realloc failed in array_insert'' s)
                | Inr (Some q, h) \<Rightarrow>
                    store_and_count
                      (arr\<lparr>a_data := Some q, a_capacity := new_cap\<rparr>)
                      index val (s\<lparr>heap := h\<rparr>)))
          else
            (case shift_right (heap s) (a_data arr) index (a_size arr) of
               Inl e \<Rightarrow> Inl e
             | Inr h \<Rightarrow> store_and_count arr index val (s\<lparr>heap := h\<rparr>)))"

text \<open>The \<open>DynamicValue\<close> that \<open>array_remove\<close> and \<open>array_get\<close> return on failure.\<close>

definition invalid_value :: DynamicValue where
  "invalid_value = \<lparr>v_type = EASS_NULL, v_error = 1, v_value = V_i 0\<rparr>"

text \<open>
  The loop of \<open>array_remove\<close> that closes the gap, with \<open>n\<close> for \<open>arr->size - 1\<close>:
  \<open>for (i = index; i < arr->size - 1; i++) arr->data[i] = arr->data[i + 1];\<close>
\<close>

function shift_left :: "heap \<Rightarrow> addr option \<Rightarrow> nat \<Rightarrow> nat \<Rightarrow> fault + heap" where
  "shift_left h pa n i =
     (if i < n then
        (case load_cell h pa (i + 1) of
           Inl e \<Rightarrow> Inl e
         | Inr v \<Rightarrow>
             (case store_cell h pa i v of
                Inl e \<Rightarrow> Inl e
              | Inr h' \<Rightarrow> shift_left h' pa n (i + 1)))
      else Inr h)"
  by pat_completeness auto
termination
  by (relation "measure (\<lambda>(h, pa, n, i). n - i)") auto

declare shift_left.simps [simp del]

definition array_remove ::
  "DynamicArray option \<Rightarrow> nat \<Rightarrow> state \<Rightarrow> DynamicValue outcome" where
  "array_remove arrp index s =
     (case arrp of
        None \<Rightarrow>
          Inr (invalid_value, None, set_error EINVAL ''array_remove called with NULL array'' s)
      | Some arr \<Rightarrow>
          if a_error arr \<noteq> 0 then Inr (invalid_value, Some arr, s)
          else if a_size arr \<le> index then
            Inr (invalid_value, Some arr,
                 set_error EINVAL ''Index out of bounds in array_remove'' s)
          else
            (case load_cell (heap s) (a_data arr) index of
               Inl e \<Rightarrow> Inl e
             | Inr removed_val \<Rightarrow>
                 (case shift_left (heap s) (a_data arr) (a_size arr - 1) index of
                    Inl e \<Rightarrow> Inl e
                  | Inr h \<Rightarrow>
                      Inr (removed_val, Some (arr\<lparr>a_size := a_size arr - 1\<rparr>),
                           s\<lparr>heap := h\<rparr>))))"

definition array_get ::
  "DynamicArray option \<Rightarrow> nat \<Rightarrow> state \<Rightarrow> fault + (DynamicValue \<times> state)" where
  "array_get arrp index s =
     (case arrp of
        None \<Rightarrow> Inr (invalid_value, set_error EINVAL ''array_get called with NULL array'' s)
      | Some arr \<Rightarrow>
          if a_error arr \<noteq> 0 then Inr (invalid_value, s)
          else if a_size arr \<le> index then
            Inr (invalid_value, set_error EINVAL ''Index out of bounds in array_get'' s)
          else
            (case load_cell (heap s) (a_data arr) index of
               Inl e \<Rightarrow> Inl e
             | Inr v \<Rightarrow> Inr (v, s)))"

section \<open>Releasing values\<close>

text \<open>
  \<open>free_dynamic_value\<close> and \<open>free_dynamic_array\<close> call each other; the array's loop
  \<open>for (i = 0; i < arr->size; i++) free_dynamic_value(&arr->data[i]);\<close> is
  \<open>free_elements\<close>. The first argument is the number of nested calls of
  \<open>free_dynamic_value\<close> the stack still has room for. A value behind a pointer is read
  from its cell, released, and written back to its cell as the call leaves it (type
  \<open>EASS_NULL\<close>, and \<open>data = NULL\<close> inside a released array).
\<close>

function free_dynamic_value :: "nat \<Rightarrow> DynamicValue \<Rightarrow> heap \<Rightarrow> fault + (DynamicValue \<times> heap)"
  and free_dynamic_array :: "nat \<Rightarrow> DynamicArray \<Rightarrow> heap \<Rightarrow> fault + (DynamicArray \<times> heap)"
  and free_elements :: "nat \<Rightarrow> addr option \<Rightarrow> nat \<Rightarrow> nat \<Rightarrow> heap \<Rightarrow> fault + heap"
  where
  "free_dynamic_value 0 val h = Inl Stack_Exhausted"
| "free_dynamic_value (Suc d) val h =
     (case v_type val of
        EASS_STRING \<Rightarrow>
          (case v_value val of
             V_s pa \<Rightarrow>
               (case c_free h pa of
                  Inl e \<Rightarrow> Inl e
                | Inr h' \<Rightarrow> Inr (val\<lparr>v_type := EASS_NULL\<rparr>, h'))
           | V_i _ \<Rightarrow> Inl Inactive_Union_Member
           | V_f _ \<Rightarrow> Inl Inactive_Union_Member
           | V_a _ \<Rightarrow> Inl Inactive_Union_Member)
      | EASS_ARRAY \<Rightarrow>
          (case v_value val of
             V_a arr \<Rightarrow>
               (case free_dynamic_array d arr h of
                  Inl e \<Rightarrow> Inl e
                | Inr (arr', h') \<Rightarrow> Inr (val\<lparr>v_type := EASS_NULL, v_value := V_a arr'\<rparr>, h'))
           | V_i _ \<Rightarrow> Inl Inactive_Union_Member
           | V_f _ \<Rightarrow> Inl Inactive_Union_Member
           | V_s _ \<Rightarrow> Inl Inactive_Union_Member)
      | EASS_INT \<Rightarrow> Inr (val\<lparr>v_type := EASS_NULL\<rparr>, h)
      | EASS_FLOAT \<Rightarrow> Inr (val\<lparr>v_type := EASS_NULL\<rparr>, h)
      | EASS_NULL \<Rightarrow> Inr (val\<lparr>v_type := EASS_NULL\<rparr>, h))"
| "free_dynamic_array d arr h =
     (case free_elements d (a_data arr) (a_size arr) 0 h of
        Inl e \<Rightarrow> Inl e
      | Inr h1 \<Rightarrow>
          (case c_free h1 (a_data arr) of
             Inl e \<Rightarrow> Inl e
           | Inr h2 \<Rightarrow> Inr (arr\<lparr>a_data := None\<rparr>, h2)))"
| "free_elements d pa n i h =
     (if i < n then
        (case load_cell h pa i of
           Inl e \<Rightarrow> Inl e
         | Inr val \<Rightarrow>
             (case free_dynamic_value d val h of
                Inl e \<Rightarrow> Inl e
              | Inr (val', h1) \<Rightarrow>
                  (case store_cell h1 pa i val' of
                     Inl e \<Rightarrow> Inl e
                   | Inr h2 \<Rightarrow> free_elements d pa n (i + 1) h2)))
      else Inr h)"
  by pat_completeness auto
termination
  by (relation "inv_image (less_than <*lex*> less_than <*lex*> less_than)
        (\<lambda>x. case x of
                Inl (d, val, h) \<Rightarrow> (d, 0, 0)
              | Inr (Inl (d, arr, h)) \<Rightarrow> (d, 2, 0)
              | Inr (Inr (d, pa, n, i, h)) \<Rightarrow> (d, 1, n - i))")
    auto


text \<open>
  The equations of the two loops rewrite a call by a term that holds the call again;
  they are applied by name.
\<close>

declare free_dynamic_array.simps [simp del] free_elements.simps [simp del]


section \<open>Text\<close>

definition digit :: "nat \<Rightarrow> char" where
  "digit d = ''0123456789'' ! d"

fun show_nat :: "nat \<Rightarrow> string" where
  "show_nat n = (if n < 10 then [digit n] else show_nat (n div 10) @ [digit (n mod 10)])"

text \<open>What \<open>%d\<close> prints.\<close>

definition show_int :: "int \<Rightarrow> string" where
  "show_int i = (if i < 0 then CHR ''-'' # show_nat (nat (- i)) else show_nat (nat i))"

text \<open>What \<open>"Error: %d - %s"\<close> prints for the error slot.\<close>

definition error_text :: "EassError \<Rightarrow> string" where
  "error_text e = ''Error: '' @ show_int (code e) @ '' - '' @ message e"

definition newline :: char where
  "newline = CHR 0x0A"

text \<open>The characters of the C string at a \<open>char*\<close>, as \<open>%s\<close> reads them.\<close>

definition read_chars :: "heap \<Rightarrow> addr option \<Rightarrow> fault + string" where
  "read_chars h pa =
     (case pa of
        None \<Rightarrow> Inl Null_Dereference
      | Some p \<Rightarrow>
          (case h p of
             Some (Chars str) \<Rightarrow> Inr str
           | Some (Cells _) \<Rightarrow> Inl Invalid_Pointer
           | None \<Rightarrow> Inl Invalid_Pointer))"

text \<open>Reading one member of the union: the member must be the one last stored.\<close>

definition member_i :: "DynamicValue \<Rightarrow> fault + int" where
  "member_i val = (case v_value val of V_i n \<Rightarrow> Inr n | V_f _ \<Rightarrow> Inl Inactive_Union_Member
     | V_s _ \<Rightarrow> Inl Inactive_Union_Member | V_a _ \<Rightarrow> Inl Inactive_Union_Member)"

definition member_f :: "DynamicValue \<Rightarrow> fault + c_float" where
  "member_f val = (case v_value val of V_f x \<Rightarrow> Inr x | V_i _ \<Rightarrow> Inl Inactive_Union_Member
     | V_s _ \<Rightarrow> Inl Inactive_Union_Member | V_a _ \<Rightarrow> Inl Inactive_Union_Member)"

definition member_s :: "DynamicValue \<Rightarrow> fault + addr option" where
  "member_s val = (case v_value val of V_s pa \<Rightarrow> Inr pa | V_i _ \<Rightarrow> Inl Inactive_Union_Member
     | V_f _ \<Rightarrow> Inl Inactive_Union_Member | V_a _ \<Rightarrow> Inl Inactive_Union_Member)"

definition member_a :: "DynamicValue \<Rightarrow> fault + DynamicArray" where
  "member_a val = (case v_value val of V_a arr \<Rightarrow> Inr arr | V_i _ \<Rightarrow> Inl Inactive_Union_Member
     | V_f _ \<Rightarrow> Inl Inactive_Union_Member | V_s _ \<Rightarrow> Inl Inactive_Union_Member)"

text \<open>The three conversions both formatters use: \<open>%d\<close>, \<open>%f\<close> and \<open>%s\<close>.\<close>

definition text_d :: "DynamicValue \<Rightarrow> fault + string" where
  "text_d val = (case member_i val of Inl e \<Rightarrow> Inl e | Inr n \<Rightarrow> Inr (show_int n))"

definition text_f :: "platform \<Rightarrow> DynamicValue \<Rightarrow> fault + string" where
  "text_f P val = (case member_f val of Inl e \<Rightarrow> Inl e | Inr x \<Rightarrow> Inr (fmt_f P x))"

definition text_s :: "heap \<Rightarrow> DynamicValue \<Rightarrow> fault + string" where
  "text_s h val = (case member_s val of Inl e \<Rightarrow> Inl e | Inr pa \<Rightarrow> read_chars h pa)"

text \<open>
  An array element is printed when its type is \<open>EASS_INT\<close>, \<open>EASS_FLOAT\<close> or
  \<open>EASS_STRING\<close>; for the other types nothing is printed (\<open>None\<close>).
\<close>

definition element_text :: "platform \<Rightarrow> heap \<Rightarrow> DynamicValue \<Rightarrow> fault + string option" where
  "element_text P h elem =
     (case v_type elem of
        EASS_INT \<Rightarrow> map_sum id Some (text_d elem)
      | EASS_FLOAT \<Rightarrow> map_sum id Some (text_f P elem)
      | EASS_STRING \<Rightarrow> map_sum id Some (text_s h elem)
      | EASS_ARRAY \<Rightarrow> Inr None
      | EASS_NULL \<Rightarrow> Inr None)"

section \<open>The console printer\<close>

text \<open>
  The loop over the elements of an array argument; \<open>out\<close> is the text written so far.
\<close>

function print_elements ::
  "platform \<Rightarrow> heap \<Rightarrow> DynamicArray \<Rightarrow> nat \<Rightarrow> string \<Rightarrow> fault + string" where
  "print_elements P h a i out =
     (if i < a_size a then
        (case load_cell h (a_data a) i of
           Inl e \<Rightarrow> Inl e
         | Inr elem \<Rightarrow>
             (case element_text P h elem of
                Inl e \<Rightarrow> Inl e
              | Inr t \<Rightarrow>
                  print_elements P h a (i + 1)
                    (out @ (case t of None \<Rightarrow> [] | Some x \<Rightarrow> x) @
                       (if i < a_size a - 1 then '', '' else []))))
      else Inr out)"
  by pat_completeness auto
termination
  by (relation "measure (\<lambda>(P, h, a, i, out). a_size a - i)") auto

declare print_elements.simps [simp del]

text \<open>The \<open>switch (val.type)\<close> of \<open>print\<close>.\<close>

definition print_value :: "platform \<Rightarrow> heap \<Rightarrow> DynamicValue \<Rightarrow> fault + string" where
  "print_value P h val =
     (case v_type val of
        EASS_INT \<Rightarrow> text_d val
      | EASS_FLOAT \<Rightarrow> text_f P val
      | EASS_STRING \<Rightarrow> text_s h val
      | EASS_ARRAY \<Rightarrow>
          (case member_a val of
             Inl e \<Rightarrow> Inl e
           | Inr a \<Rightarrow>
               (case print_elements P h a 0 ''Array['' of
                  Inl e \<Rightarrow> Inl e
                | Inr t \<Rightarrow> Inr (t @ '']'')))
      | EASS_NULL \<Rightarrow> Inr ''NULL'')"

text \<open>
  \<open>print\<close>: \<open>format\<close> is the rest of the template, \<open>args\<close> the variable arguments not yet
  taken by \<open>va_arg\<close>. At the end of the template the newline is written; the return
  inside the loop, taken for an argument whose \<open>error\<close> is set, leaves before that.
\<close>

fun print :: "platform \<Rightarrow> string \<Rightarrow> DynamicValue list \<Rightarrow> state \<Rightarrow> fault + state" where
  "print P [] args s = Inr (s\<lparr>stdout := stdout s @ [newline]\<rparr>)"
| "print P [c] args s = print P [] args (s\<lparr>stdout := stdout s @ [c]\<rparr>)"
| "print P (c # c' # format) args s =
     (if c = CHR ''{'' \<and> c' = CHR ''}'' then
        (case args of
           [] \<Rightarrow> Inl Va_Arg_Exhausted
         | val # args' \<Rightarrow>
             if v_error val \<noteq> 0 then
               Inr (s\<lparr>stdout := stdout s @ error_text (eass_last_error s)\<rparr>)
             else
               (case print_value P (heap s) val of
                  Inl e \<Rightarrow> Inl e
                | Inr t \<Rightarrow>
                    (case free_dynamic_value (stack_depth P) val (heap s) of
                       Inl e \<Rightarrow> Inl e
                     | Inr (val', h) \<Rightarrow>
                         print P format args' (s\<lparr>stdout := stdout s @ t, heap := h\<rparr>))))
      else print P (c' # format) args (s\<lparr>stdout := stdout s @ [c]\<rparr>))"


section \<open>The string formatter\<close>

definition isdigit :: "char \<Rightarrow> bool" where
  "isdigit c = (c \<in> set ''0123456789'')"

definition digit_value :: "char \<Rightarrow> nat" where
  "digit_value c = of_char c - 48"

definition LONG_MAX :: int where
  "LONG_MAX = 2 ^ 63 - 1"

text \<open>
  \<open>strtol(p, NULL, 10)\<close> for a \<open>p\<close> that starts with a digit: the value of the longest
  run of digits, or \<open>LONG_MAX\<close> when that does not fit a \<open>long\<close>.
\<close>

definition strtol :: "string \<Rightarrow> int" where
  "strtol p =
     (let v = int (foldl (\<lambda>acc c. 10 * acc + digit_value c) 0 (takeWhile isdigit p))
      in if LONG_MAX < v then LONG_MAX else v)"

text \<open>
  The first pass. \<open>p\<close> is the rest of the template, \<open>args\<close> the arguments \<open>va_arg\<close> has
  not taken yet. A brace followed by a digit moves \<open>p\<close> three characters on, whatever
  they are; when fewer than three are left, the next test of \<open>*p\<close> reads past the
  terminator of the template.
\<close>

function count_pass :: "string \<Rightarrow> DynamicValue list \<Rightarrow> nat \<Rightarrow> nat \<Rightarrow> fault + (nat \<times> nat)" where
  "count_pass [] args formatted_length arg_count = Inr (formatted_length, arg_count)"
| "count_pass [c] args formatted_length arg_count =
     count_pass [] args (formatted_length + 1) arg_count"
| "count_pass (c # c' # p) args formatted_length arg_count =
     (if c = CHR ''{'' then
        (if c' = CHR ''}'' then
           (case args of
              [] \<Rightarrow> Inl Va_Arg_Exhausted
            | val # args' \<Rightarrow> count_pass p args' (formatted_length + 128) (arg_count + 1))
         else if isdigit c' then
           (let index = to_int (strtol (c' # p)) in
            case args of
              [] \<Rightarrow> Inl Va_Arg_Exhausted
            | val # args' \<Rightarrow>
                (case p of
                   [] \<Rightarrow> Inl Out_Of_Bounds
                 | c'' # p' \<Rightarrow>
                     count_pass p' args' (formatted_length + 128)
                       (if arg_count < to_size_t index then to_size_t index else arg_count)))
         else count_pass (c' # p) args (formatted_length + 1) arg_count)
      else count_pass (c' # p) args (formatted_length + 1) arg_count)"
  by pat_completeness auto
termination
  by (relation "measure (\<lambda>(p, args, formatted_length, arg_count). length p)") auto

text \<open>
  The output buffer has \<open>cap = formatted_length + 1\<close> bytes. \<open>off\<close> is \<open>out_p -
  formatted_string\<close> and \<open>out\<close> the characters stored so far.

  \<open>out_p += snprintf(out_p, formatted_length + 1 - (out_p - formatted_string), ...)\<close>:
  with \<open>n\<close> bytes left, \<open>snprintf\<close> stores at most \<open>n - 1\<close> characters and a terminator, and
  returns the full length of the text, so \<open>out_p\<close> can leave the buffer. Once it has, the
  size argument wraps around and the next call writes outside.
\<close>

definition snprintf_rest :: "nat \<Rightarrow> nat \<times> string \<Rightarrow> string \<Rightarrow> fault + (nat \<times> string)" where
  "snprintf_rest cap pos t =
     (case pos of (off, out) \<Rightarrow>
        if cap < off then Inl Out_Of_Bounds
        else Inr (off + length t, out @ take (cap - off - 1) t))"

text \<open>\<open>*out_p++ = *p++;\<close>\<close>

definition put_char :: "nat \<Rightarrow> nat \<times> string \<Rightarrow> char \<Rightarrow> fault + (nat \<times> string)" where
  "put_char cap pos c =
     (case pos of (off, out) \<Rightarrow>
        if off < cap then Inr (off + 1, out @ [c]) else Inl Out_Of_Bounds)"

text \<open>
  \<open>snprintf(out_p, formatted_length + 1, "Error: %d - %s", ...)\<close> before a return of
  \<open>NULL\<close>: the size is that of the whole buffer, wherever \<open>out_p\<close> stands in it.
\<close>

definition snprintf_error :: "nat \<Rightarrow> nat \<times> string \<Rightarrow> string \<Rightarrow> fault + unit" where
  "snprintf_error cap pos t =
     (case pos of (off, out) \<Rightarrow>
        if cap < off + min (length t) (cap - 1) + 1 then Inl Out_Of_Bounds else Inr ())"

text \<open>
  What a step of the second pass leaves: the new position in the buffer, or the decision
  to give up and return \<open>NULL\<close>.
\<close>

datatype 'a step = Go 'a | Give_Up

text \<open>The loop over the elements of an array argument.\<close>

function format_elements ::
  "platform \<Rightarrow> state \<Rightarrow> nat \<Rightarrow> DynamicArray \<Rightarrow> nat \<Rightarrow> nat \<times> string \<Rightarrow>
     fault + (nat \<times> string) step" where
  "format_elements P s cap a i pos =
     (if i < a_size a then
        (case load_cell (heap s) (a_data a) i of
           Inl e \<Rightarrow> Inl e
         | Inr element \<Rightarrow>
             if v_error element \<noteq> 0 then
               (case snprintf_rest cap pos (error_text (eass_last_error s)) of
                  Inl e \<Rightarrow> Inl e
                | Inr pos' \<Rightarrow> Inr Give_Up)
             else
               (case element_text P (heap s) element of
                  Inl e \<Rightarrow> Inl e
                | Inr t \<Rightarrow>
                    (case (case t of None \<Rightarrow> Inr pos | Some x \<Rightarrow> snprintf_rest cap pos x) of
                       Inl e \<Rightarrow> Inl e
                     | Inr pos1 \<Rightarrow>
                         (case (if i < a_size a - 1 then snprintf_rest cap pos1 '', ''
                                else Inr pos1) of
                            Inl e \<Rightarrow> Inl e
                          | Inr pos2 \<Rightarrow> format_elements P s cap a (i + 1) pos2))))
      else Inr (Go pos))"
  by pat_completeness auto
termination
  by (relation "measure (\<lambda>(P, s, cap, a, i, pos). a_size a - i)") auto

declare format_elements.simps [simp del]

text \<open>
  The \<open>if (val.error)\<close> and the \<open>switch (val.type)\<close> that follow both kinds of
  placeholder.
\<close>

definition format_value ::
  "platform \<Rightarrow> state \<Rightarrow> nat \<Rightarrow> DynamicValue \<Rightarrow> nat \<times> string \<Rightarrow> fault + (nat \<times> string) step" where
  "format_value P s cap val pos =
     (if v_error val \<noteq> 0 then
        (case snprintf_error cap pos (error_text (eass_last_error s)) of
           Inl e \<Rightarrow> Inl e
         | Inr u \<Rightarrow> Inr Give_Up)
      else
        (case v_type val of
           EASS_INT \<Rightarrow>
             (case text_d val of Inl e \<Rightarrow> Inl e
              | Inr t \<Rightarrow> map_sum id Go (snprintf_rest cap pos t))
         | EASS_FLOAT \<Rightarrow>
             (case text_f P val of Inl e \<Rightarrow> Inl e
              | Inr t \<Rightarrow> map_sum id Go (snprintf_rest cap pos t))
         | EASS_STRING \<Rightarrow>
             (case text_s (heap s) val of Inl e \<Rightarrow> Inl e
              | Inr t \<Rightarrow> map_sum id Go (snprintf_rest cap pos t))
         | EASS_ARRAY \<Rightarrow>
             (case member_a val of
                Inl e \<Rightarrow> Inl e
              | Inr a \<Rightarrow>
                  (case snprintf_rest cap pos ''Array['' of
                     Inl e \<Rightarrow> Inl e
                   | Inr pos1 \<Rightarrow>
                       (case format_elements P s cap a 0 pos1 of
                          Inl e \<Rightarrow> Inl e
                        | Inr Give_Up \<Rightarrow> Inr Give_Up
                        | Inr (Go pos2) \<Rightarrow> map_sum id Go (snprintf_rest cap pos2 '']''))))
         | EASS_NULL \<Rightarrow> map_sum id Go (snprintf_rest cap pos ''NULL'')))"

text \<open>\<open>arg_values[index]\<close> for the \<open>int index\<close>.\<close>

definition arg_value :: "heap \<Rightarrow> addr option \<Rightarrow> int \<Rightarrow> fault + DynamicValue" where
  "arg_value h arg_values index =
     (case arg_values of
        None \<Rightarrow> Inl Null_Dereference
      | Some p \<Rightarrow> if index < 0 then Inl Out_Of_Bounds else load_cell h arg_values (nat index))"

text \<open>
  The second pass. \<open>{}\<close> takes the next argument and keeps it in \<open>arg_values\<close> when
  \<open>current_arg < arg_count\<close>; a brace followed by a digit reads \<open>arg_values[index]\<close> and
  takes no argument. The result is the position reached in the buffer, or \<open>Give_Up\<close>,
  and the state (whose heap holds \<open>arg_values\<close>).
\<close>

function format_pass ::
  "platform \<Rightarrow> nat \<Rightarrow> nat \<Rightarrow> addr option \<Rightarrow> string \<Rightarrow> DynamicValue list \<Rightarrow> int \<Rightarrow>
     nat \<times> string \<Rightarrow> state \<Rightarrow> fault + ((nat \<times> string) step \<times> state)" where
  "format_pass P cap arg_count arg_values [] args current_arg pos s = Inr (Go pos, s)"
| "format_pass P cap arg_count arg_values [c] args current_arg pos s =
     (case put_char cap pos c of
        Inl e \<Rightarrow> Inl e
      | Inr pos' \<Rightarrow> format_pass P cap arg_count arg_values [] args current_arg pos' s)"
| "format_pass P cap arg_count arg_values (c # c' # p) args current_arg pos s =
     (if c = CHR ''{'' then
        (if c' = CHR ''}'' then
           (case args of
              [] \<Rightarrow> Inl Va_Arg_Exhausted
            | val # args' \<Rightarrow>
                (case (if to_size_t current_arg < arg_count
                       then store_cell (heap s) arg_values (nat current_arg) val
                       else Inr (heap s)) of
                   Inl e \<Rightarrow> Inl e
                 | Inr h \<Rightarrow>
                     (case format_value P (s\<lparr>heap := h\<rparr>) cap val pos of
                        Inl e \<Rightarrow> Inl e
                      | Inr Give_Up \<Rightarrow> Inr (Give_Up, s\<lparr>heap := h\<rparr>)
                      | Inr (Go pos') \<Rightarrow>
                          format_pass P cap arg_count arg_values p args'
                            (to_int (current_arg + 1)) pos' (s\<lparr>heap := h\<rparr>))))
         else if isdigit c' then
           (let index = to_int (strtol (c' # p)) in
            case arg_value (heap s) arg_values index of
              Inl e \<Rightarrow> Inl e
            | Inr val \<Rightarrow>
                (case format_value P s cap val pos of
                   Inl e \<Rightarrow> Inl e
                 | Inr Give_Up \<Rightarrow> Inr (Give_Up, s)
                 | Inr (Go pos') \<Rightarrow>
                     (case p of
                        [] \<Rightarrow> Inl Out_Of_Bounds
                      | c'' # p' \<Rightarrow>
                          format_pass P cap arg_count arg_values p' args current_arg pos' s)))
         else
           (case put_char cap pos c of
              Inl e \<Rightarrow> Inl e
            | Inr pos' \<Rightarrow>
                format_pass P cap arg_count arg_values (c' # p) args current_arg pos' s))
      else
        (case put_char cap pos c of
           Inl e \<Rightarrow> Inl e
         | Inr pos' \<Rightarrow>
             format_pass P cap arg_count arg_values (c' # p) args current_arg pos' s))"
  by pat_completeness auto
termination
  by (relation "measure (\<lambda>(P, cap, arg_count, arg_values, p, rest). length p)") auto

text \<open>
  \<open>for (i = 0; i < arg_count; i++) arg_values[i].type = EASS_NULL;\<close> on the block that
  \<open>malloc\<close> returned, which is not tested for \<open>NULL\<close>. The other members of each slot
  stay indeterminate.
\<close>

definition init_arg_values :: "heap \<Rightarrow> addr option \<Rightarrow> nat \<Rightarrow> fault + heap" where
  "init_arg_values h arg_values arg_count =
     (if arg_count = 0 then Inr h
      else
        (case load_cells h arg_values of
           Inl e \<Rightarrow> Inl e
         | Inr cs \<Rightarrow> Inr (store_cells h arg_values (map (\<lambda>v. v\<lparr>v_type := EASS_NULL\<rparr>) cs))))"

text \<open>
  \<open>string_format\<close> returns the \<open>char*\<close> (\<open>None\<close> for \<open>NULL\<close>); the text is the block at
  that address.
\<close>

definition string_format ::
  "platform \<Rightarrow> string \<Rightarrow> DynamicValue list \<Rightarrow> state \<Rightarrow> fault + (addr option \<times> state)" where
  "string_format P format args s =
     (case count_pass format args 0 0 of
        Inl e \<Rightarrow> Inl e
      | Inr (formatted_length, arg_count) \<Rightarrow>
          (case malloc P (heap s) (formatted_length + 1) of
             None \<Rightarrow> Inr (None, set_error ENOMEM ''malloc failed in string_format'' s)
           | Some formatted_string \<Rightarrow>
               (let h0 = (heap s)(formatted_string := Some (Chars [])) in
                case malloc_cells P h0 arg_count of (arg_values, h1) \<Rightarrow>
                  (case init_arg_values h1 arg_values arg_count of
                     Inl e \<Rightarrow> Inl e
                   | Inr h2 \<Rightarrow>
                       (case format_pass P (formatted_length + 1) arg_count arg_values
                               format args 0 (0, []) (s\<lparr>heap := h2\<rparr>) of
                          Inl e \<Rightarrow> Inl e
                        | Inr (Give_Up, s1) \<Rightarrow>
                            (case c_free (heap s1) (Some formatted_string) of
                               Inl e \<Rightarrow> Inl e
                             | Inr h3 \<Rightarrow>
                                 (case c_free h3 arg_values of
                                    Inl e \<Rightarrow> Inl e
                                  | Inr h4 \<Rightarrow> Inr (None, s1\<lparr>heap := h4\<rparr>)))
                        | Inr (Go (off, out), s1) \<Rightarrow>
                            if formatted_length + 1 \<le> off then Inl Out_Of_Bounds
                            else
                              (case free_elements (stack_depth P) arg_values arg_count 0
                                      ((heap s1)(formatted_string := Some (Chars out))) of
                                 Inl e \<Rightarrow> Inl e
                               | Inr h3 \<Rightarrow>
                                   (case c_free h3 arg_values of
                                      Inl e \<Rightarrow> Inl e
                                    | Inr h4 \<Rightarrow>
                                        Inr (Some formatted_string, s1\<lparr>heap := h4\<rparr>))))))))"


section \<open>Numeric literals\<close>

text \<open>
  \<open>numlit\<close> chooses by the type of its argument, so an argument is a number together with
  its C type. The conversions between the arithmetic types are those of the C
  implementation and are taken as given.
\<close>

datatype c_number = Of_int int | Of_long int | Of_float c_float | Of_double c_double

datatype c_type = T_int | T_long | T_float | T_double

definition type_of :: "c_number \<Rightarrow> c_type" where
  "type_of x =
     (case x of Of_int _ \<Rightarrow> T_int | Of_long _ \<Rightarrow> T_long | Of_float _ \<Rightarrow> T_float
      | Of_double _ \<Rightarrow> T_double)"

record conversions =
  cast_int :: "c_number \<Rightarrow> int"
  cast_float :: "c_number \<Rightarrow> c_float"
  cast_double :: "c_number \<Rightarrow> c_double"

definition as_int :: "conversions \<Rightarrow> c_number \<Rightarrow> DynamicValue" where
  "as_int C x = \<lparr>v_type = EASS_INT, v_error = 0, v_value = V_i (cast_int C x)\<rparr>"

definition as_float :: "conversions \<Rightarrow> c_number \<Rightarrow> DynamicValue" where
  "as_float C x = \<lparr>v_type = EASS_FLOAT, v_error = 0, v_value = V_f (cast_float C x)\<rparr>"

text \<open>
  The function \<open>DynamicValue numlit(double value)\<close>. Its generic selection is on the
  parameter \<open>value\<close>, whose type is \<open>double\<close> whatever the caller wrote: the prototype
  converts the argument.
\<close>

definition numlit_selection :: "conversions \<Rightarrow> c_number \<Rightarrow> DynamicValue" where
  "numlit_selection C v =
     (case type_of v of
        T_int \<Rightarrow> as_int C v
      | T_float \<Rightarrow> as_float C v
      | T_double \<Rightarrow> as_float C v
      | T_long \<Rightarrow> as_int C v)"

definition numlit :: "conversions \<Rightarrow> c_number \<Rightarrow> DynamicValue" where
  "numlit C x = numlit_selection C (Of_double (cast_double C x))"

text \<open>
  The macro \<open>numlit(x)\<close> defined before the function is not embedded: its association
  list names \<open>int\<close>, \<open>float\<close> and \<open>double\<close> before a single colon, which is not a
  generic selection of ISO C, so the text gives the macro no behaviour.
\<close>

section \<open>Callers and a concrete platform\<close>

text \<open>
  A caller that appends the values of a list one after the other to its array:
  \<open>for each v: array_append(&arr, v);\<close>
\<close>

fun append_all ::
  "platform \<Rightarrow> DynamicValue list \<Rightarrow> DynamicArray \<Rightarrow> state \<Rightarrow> fault + (DynamicArray \<times> state)" where
  "append_all P [] arr s = Inr (arr, s)"
| "append_all P (v # vs) arr s =
     (case array_append P (Some arr) v s of
        Inl e \<Rightarrow> Inl e
      | Inr (r, arrp, s') \<Rightarrow> append_all P vs r s')"

text \<open>The caller that creates its array with capacity 0: \<open>arr = array(0)\<close>, then the appends.\<close>

definition array_0_appends ::
  "platform \<Rightarrow> DynamicArray \<Rightarrow> DynamicValue list \<Rightarrow> state \<Rightarrow> fault + (DynamicArray \<times> state)" where
  "array_0_appends P arr0 vs s = (case array P arr0 0 s of (arr, s0) \<Rightarrow> append_all P vs arr s0)"

text \<open>
  \<open>holds s arr xs\<close>: the array has not failed, its length is that of \<open>xs\<close>, and its buffer
  has \<open>capacity\<close> cells of which the first are \<open>xs\<close>. An array that has no buffer yet is
  empty and has capacity 0.
\<close>

definition holds :: "state \<Rightarrow> DynamicArray \<Rightarrow> DynamicValue list \<Rightarrow> bool" where
  "holds s arr xs \<longleftrightarrow>
     a_error arr = 0 \<and> a_size arr = length xs \<and>
     (case a_data arr of
        None \<Rightarrow> xs = [] \<and> a_capacity arr = 0
      | Some p \<Rightarrow>
          (\<exists>cs. heap s p = Some (Cells cs) \<and> length cs = a_capacity arr \<and>
                length xs \<le> length cs \<and> take (length xs) cs = xs))"

text \<open>
  An allocator that never fails while finitely many blocks are live, and returns an
  address that is not in use.
\<close>

definition good_allocator :: "platform \<Rightarrow> bool" where
  "good_allocator P \<longleftrightarrow> (\<forall>h n. finite (dom h) \<longrightarrow> (\<exists>q. malloc P h n = Some q \<and> h q = None))"

text \<open>
  The capacities that \<open>array_append\<close> gives an array created with capacity 0, up to the
  last one whose one and a half fits an \<open>int\<close>: each is the \<open>new_cap\<close> computed from the
  one before it.
\<close>

definition capacities :: "nat list" where
  "capacities =
     [0, 4, 6, 9, 13, 19, 28, 42, 63, 94, 141, 211, 316, 474, 711, 1066, 1599, 2398, 3597,
      5395, 8092, 12138, 18207, 27310, 40965, 61447, 92170, 138255, 207382, 311073, 466609,
      699913, 1049869, 1574803, 2362204, 3543306, 5314959, 7972438, 11958657, 17937985,
      26906977, 40360465, 60540697, 90811045, 136216567, 204324850, 306487275, 459730912,
      689596368, 1034394552, 1551591828]"

text \<open>
  A platform to run the functions on: a desktop build (\<open>EASS_ENABLE_EMBEDDED\<close> is not
  defined) whose allocator hands out the lowest free address of six and refuses more
  than 4096 bytes, and whose fresh cells hold the integer \<open>-1\<close>. The program starts
  with an empty heap and the error slot zeroed, as its initialiser says; \<open>unset_array\<close>
  stands for what the local \<open>arr\<close> of \<open>array\<close> holds before it is assigned.
\<close>

definition first_fit :: "heap \<Rightarrow> nat \<Rightarrow> addr option" where
  "first_fit h n = (if 4096 < n then None else List.find (\<lambda>p. h p = None) [1, 2, 3, 4, 5, 6])"

definition int_value :: "int \<Rightarrow> DynamicValue" where
  "int_value n = \<lparr>v_type = EASS_INT, v_error = 0, v_value = V_i n\<rparr>"

definition desktop :: platform where
  "desktop = \<lparr>embedded = False, malloc = first_fit, junk = (\<lambda>i. int_value (- 1)),
     fmt_f = (\<lambda>x. ''0.000000''), stack_depth = 8\<rparr>"

text \<open>The same build with an allocator that never fails: it returns the lowest free address.\<close>

definition roomy :: platform where
  "roomy = desktop\<lparr>malloc := \<lambda>h n. Some (LEAST q. h q = None)\<rparr>"

definition initial_state :: state where
  "initial_state = \<lparr>heap = (\<lambda>p. None), eass_last_error = \<lparr>code = 0, message = []\<rparr>, stdout = []\<rparr>"

definition unset_array :: DynamicArray where
  "unset_array = \<lparr>a_data = Some 77, a_size = 13, a_capacity = 5, a_error = 3\<rparr>"

text \<open>An array of four integers in a buffer that is full: what four appends build.\<close>

definition four_full :: DynamicArray where
  "four_full = \<lparr>a_data = Some 1, a_size = 4, a_capacity = 4, a_error = 0\<rparr>"

definition four_state :: state where
  "four_state = initial_state\<lparr>heap := (\<lambda>p. None)(1 := Some (Cells (map int_value [10, 20, 30, 40])))\<rparr>"

text \<open>What \<open>array_get\<close> returns at each index below the array's size.\<close>

definition elements :: "DynamicArray \<Rightarrow> state \<Rightarrow> (fault + DynamicValue) list" where
  "elements arr s = map (\<lambda>i. map_sum id fst (array_get (Some arr) i s)) [0..<a_size arr]"

text \<open>
  A string value and an array value, and an array of two strings: its buffer is the block
  at 1, the texts are the blocks at 2 and 3.
\<close>

definition text_value :: "addr \<Rightarrow> DynamicValue" where
  "text_value p = \<lparr>v_type = EASS_STRING, v_error = 0, v_value = V_s (Some p)\<rparr>"

definition array_value :: "DynamicArray \<Rightarrow> DynamicValue" where
  "array_value a = \<lparr>v_type = EASS_ARRAY, v_error = 0, v_value = V_a a\<rparr>"

definition names :: DynamicArray where
  "names = \<lparr>a_data = Some 1, a_size = 2, a_capacity = 4, a_error = 0\<rparr>"

definition names_state :: state where
  "names_state = initial_state\<lparr>heap := (\<lambda>p. None)
     (1 := Some (Cells [text_value 2, text_value 3, int_value (- 1), int_value (- 1)]),
      2 := Some (Chars ''Ada''), 3 := Some (Chars ''Grace''))\<rparr>"

section \<open>Ownership\<close>

text \<open>
  \<open>owns h v p\<close>: in the heap \<open>h\<close> the block at \<open>p\<close> belongs to the value \<open>v\<close>: it is the
  text of a string value, the buffer of an array value, or it belongs to one of the
  array's elements.
\<close>

inductive owns :: "heap \<Rightarrow> DynamicValue \<Rightarrow> addr \<Rightarrow> bool" for h where
  chars: "v_type v = EASS_STRING \<Longrightarrow> v_value v = V_s (Some p) \<Longrightarrow> owns h v p"
| buffer: "v_type v = EASS_ARRAY \<Longrightarrow> v_value v = V_a a \<Longrightarrow> a_data a = Some p \<Longrightarrow> owns h v p"
| element: "v_type v = EASS_ARRAY \<Longrightarrow> v_value v = V_a a \<Longrightarrow> a_data a = Some b \<Longrightarrow>
     h b = Some (Cells cs) \<Longrightarrow> i < a_size a \<Longrightarrow> i < length cs \<Longrightarrow> owns h (cs ! i) p \<Longrightarrow>
     owns h v p"

code_pred owns .

text \<open>
  The number of arguments \<open>print\<close> takes and renders: one for each \<open>{}\<close> of the template,
  up to the first argument whose \<open>error\<close> is set or the end of the argument list.
\<close>

fun rendered :: "string \<Rightarrow> DynamicValue list \<Rightarrow> nat" where
  "rendered [] args = 0"
| "rendered [c] args = 0"
| "rendered (c # c' # format) args =
     (if c = CHR ''{'' \<and> c' = CHR ''}'' then
        (case args of
           [] \<Rightarrow> 0
         | val # args' \<Rightarrow> if v_error val \<noteq> 0 then 0 else Suc (rendered format args'))
      else rendered (c' # format) args)"

text \<open>
  Whether \<open>print\<close> meets an argument whose \<open>error\<close> is set at one of the \<open>{}\<close> of the
  template.
\<close>

fun stops :: "string \<Rightarrow> DynamicValue list \<Rightarrow> bool" where
  "stops [] args = False"
| "stops [c] args = False"
| "stops (c # c' # format) args =
     (if c = CHR ''{'' \<and> c' = CHR ''}'' then
        (case args of
           [] \<Rightarrow> False
         | val # args' \<Rightarrow> if v_error val \<noteq> 0 then True else stops format args')
      else stops (c' # format) args)"

text \<open>
  The arguments that \<open>print\<close> takes and renders, and the number of \<open>{}\<close> it finds in
  a template, scanning as \<open>print\<close> does.
\<close>

definition taken :: "string \<Rightarrow> DynamicValue list \<Rightarrow> DynamicValue list" where
  "taken format args = take (rendered format args) args"

fun holes :: "string \<Rightarrow> nat" where
  "holes [] = 0"
| "holes [c] = 0"
| "holes (c # c' # format) =
     (if c = CHR ''{'' \<and> c' = CHR ''}'' then Suc (holes format) else holes (c' # format))"

text \<open>
  \<open>frame B h h'\<close>: going from \<open>h\<close> to \<open>h'\<close>, every block outside \<open>B\<close> is either left as it
  was or no longer allocated.
\<close>

definition frame :: "addr set \<Rightarrow> heap \<Rightarrow> heap \<Rightarrow> bool" where
  "frame B h h' \<longleftrightarrow> (\<forall>q. q \<in> B \<or> h' q = None \<or> h' q = h q)"

section \<open>Intact values\<close>

text \<open>
  The block a value points to itself (the text of a string, the buffer of an array), the
  elements of an array value, and \<open>blocks d h v\<close>: the blocks reached from \<open>v\<close> in the heap
  \<open>h\<close> through at most \<open>d\<close> levels of arrays, a block as often as it is reached.
\<close>

definition own_block :: "DynamicValue \<Rightarrow> addr list" where
  "own_block v =
     (case v_type v of
        EASS_STRING \<Rightarrow> (case v_value v of V_s (Some p) \<Rightarrow> [p] | _ \<Rightarrow> [])
      | EASS_ARRAY \<Rightarrow>
          (case v_value v of
             V_a a \<Rightarrow> (case a_data a of Some b \<Rightarrow> [b] | None \<Rightarrow> [])
           | _ \<Rightarrow> [])
      | _ \<Rightarrow> [])"

definition cells_of :: "heap \<Rightarrow> DynamicValue \<Rightarrow> DynamicValue list" where
  "cells_of h v =
     (case v_type v of
        EASS_ARRAY \<Rightarrow>
          (case v_value v of
             V_a a \<Rightarrow>
               (case a_data a of
                  Some b \<Rightarrow> (case h b of Some (Cells cs) \<Rightarrow> take (a_size a) cs | _ \<Rightarrow> [])
                | None \<Rightarrow> [])
           | _ \<Rightarrow> [])
      | _ \<Rightarrow> [])"

primrec blocks :: "nat \<Rightarrow> heap \<Rightarrow> DynamicValue \<Rightarrow> addr list" where
  "blocks 0 h v = own_block v"
| "blocks (Suc d) h v = own_block v @ concat (map (blocks d h) (cells_of h v))"

text \<open>
  \<open>intact d h v\<close>: \<open>v\<close> is a value as the library builds them, whole in the heap \<open>h\<close>. The
  union holds the member that the type names; the text of a string is a live block of
  characters; an array either has no buffer and no element, or its buffer is a live block
  of cells that holds its \<open>size\<close> elements, and these are intact in turn. Arrays are
  nested at most \<open>d\<close> deep.
\<close>

definition plain :: "heap \<Rightarrow> DynamicValue \<Rightarrow> bool" where
  "plain h v =
     (case v_type v of
        EASS_INT \<Rightarrow> (case v_value v of V_i _ \<Rightarrow> True | _ \<Rightarrow> False)
      | EASS_FLOAT \<Rightarrow> (case v_value v of V_f _ \<Rightarrow> True | _ \<Rightarrow> False)
      | EASS_STRING \<Rightarrow>
          (case v_value v of
             V_s (Some p) \<Rightarrow> (case h p of Some (Chars _) \<Rightarrow> True | _ \<Rightarrow> False)
           | _ \<Rightarrow> False)
      | EASS_ARRAY \<Rightarrow> False
      | EASS_NULL \<Rightarrow> True)"

definition buffer_ok :: "heap \<Rightarrow> DynamicValue \<Rightarrow> bool" where
  "buffer_ok h v =
     (case v_value v of
        V_a a \<Rightarrow>
          (case a_data a of
             None \<Rightarrow> a_size a = 0
           | Some b \<Rightarrow> (case h b of Some (Cells cs) \<Rightarrow> a_size a \<le> length cs | _ \<Rightarrow> False))
      | _ \<Rightarrow> False)"

primrec intact :: "nat \<Rightarrow> heap \<Rightarrow> DynamicValue \<Rightarrow> bool" where
  "intact 0 h v = plain h v"
| "intact (Suc d) h v =
     (if v_type v = EASS_ARRAY then buffer_ok h v \<and> list_all (intact d h) (cells_of h v)
      else plain h v)"

text \<open>
  An array of an array and a string: its buffer is the block at 4, its first element is
  the array of two strings above (blocks 1, 2 and 3), its second the text at 5. The block
  at 6 belongs to neither.
\<close>

definition shelf :: DynamicArray where
  "shelf = \<lparr>a_data = Some 4, a_size = 2, a_capacity = 2, a_error = 0\<rparr>"

definition shelf_state :: state where
  "shelf_state = initial_state\<lparr>heap := (\<lambda>p. None)
     (1 := Some (Cells [text_value 2, text_value 3, int_value (- 1), int_value (- 1)]),
      2 := Some (Chars ''Ada''), 3 := Some (Chars ''Grace''),
      4 := Some (Cells [array_value names, text_value 5]),
      5 := Some (Chars ''Alan''), 6 := Some (Chars ''kept''))\<rparr>"

section \<open>Properties of the dynamic array\<close>

lemma store_cell_Inr:
  "store_cell h pa i v = Inr h' \<Longrightarrow>
   \<exists>p cs. pa = Some p \<and> h p = Some (Cells cs) \<and> i < length cs \<and>
          h' = h(p := Some (Cells (cs[i := v])))"
  by (auto simp: store_cell_def load_cells_def store_cells_def
      split: option.splits block.splits if_splits)

lemma store_and_count_Inr:
  "store_and_count arr i val s = Inr (r, arrp, s') \<Longrightarrow>
   \<exists>p cs. a_data arr = Some p \<and> heap s p = Some (Cells cs) \<and> i < length cs \<and>
          r = arr\<lparr>a_size := a_size arr + 1\<rparr> \<and> arrp = Some r \<and>
          s' = s\<lparr>heap := (heap s)(p := Some (Cells (cs[i := val])))\<rparr>"
  by (auto simp: store_and_count_def return_arr_def split: sum.splits dest!: store_cell_Inr)

lemma take_Suc_update: "n < length cs \<Longrightarrow> take (Suc n) (cs[n := v]) = take n cs @ [v]"
  by (simp add: take_Suc_conv_app_nth)

lemma holds_store:
  assumes "store_and_count arr (length xs) val s = Inr (r, arrp, s')"
    and "a_error arr = 0" "a_size arr = length xs"
    and "a_data arr = Some p" "heap s p = Some (Cells cs)" "length cs = a_capacity arr"
    and "length xs < length cs \<Longrightarrow> take (length xs) cs = xs"
  shows "arrp = Some r \<and> holds s' r (xs @ [val])"
  using store_and_count_Inr[OF assms(1)] assms(2-)
  by (auto simp: holds_def take_Suc_update)

lemma memcpy_cells_Inr:
  "memcpy_cells h (Some q) 0 src 0 n = Inr h' \<Longrightarrow> h q = Some (Cells ds) \<Longrightarrow> 0 < n \<Longrightarrow>
   \<exists>ss. load_cells h src = Inr ss \<and> n \<le> length ss \<and> n \<le> length ds \<and>
        h' = h(q := Some (Cells (take n ss @ drop n ds)))"
  by (auto simp: memcpy_cells_def load_cells_def store_cells_def
      split: sum.splits if_splits option.splits block.splits)

text \<open>
  A byte count that does not wrap gives a block of as many cells as were asked for. That
  is so for every capacity \<open>array_append\<close> asks for, which has passed through an \<open>int\<close>.
\<close>

lemma whole_cells_byte_count: "n \<le> 461168601842738790 \<Longrightarrow> whole_cells (byte_count n) = n"
  by (simp add: whole_cells_def byte_count_def sizeof_DynamicValue_def)

lemma append_new_cap_range: "4 \<le> append_new_cap c \<and> append_new_cap c < 2 ^ 31"
proof -
  have "(x + 2 ^ 31) mod 2 ^ 32 < (2 ^ 32 :: int)" for x :: int
    by simp
  then have "to_int x < 2 ^ 31" for x
    unfolding to_int_def by simp
  then show ?thesis
    by (auto simp: append_new_cap_def Let_def)
qed

lemma append_new_cap_cells:
  "whole_cells (byte_count (to_size_t (append_new_cap c))) = to_size_t (append_new_cap c)"
proof -
  have "to_size_t (append_new_cap c) = nat (append_new_cap c)"
    using append_new_cap_range[of c] by (simp add: to_size_t_def)
  moreover have "nat (append_new_cap c) \<le> 461168601842738790"
    using append_new_cap_range[of c] by (simp add: nat_le_iff)
  ultimately show ?thesis by (simp add: whole_cells_byte_count)
qed

lemma realloc_cells_Inr:
  "realloc_cells P h pa n = Inr (Some q, h') \<Longrightarrow> whole_cells (byte_count n) = n \<Longrightarrow>
   (pa = None \<and> h' q = Some (Cells (fresh_cells P n))) \<or>
   (\<exists>p cs. pa = Some p \<and> h p = Some (Cells cs) \<and>
           h' q = Some (Cells (take n cs @ drop (length cs) (fresh_cells P n))))"
  by (auto simp: realloc_cells_def malloc_cells_def Let_def split: option.splits block.splits)

lemma length_fresh_cells [simp]: "length (fresh_cells P n) = n"
  by (simp add: fresh_cells_def)

lemma realloc_cells_keeps:
  assumes "realloc_cells P h pa n = Inr (Some q, h')" and "whole_cells (byte_count n) = n"
    and "case pa of None \<Rightarrow> xs = []
         | Some p \<Rightarrow> (\<exists>cs. h p = Some (Cells cs) \<and> length xs \<le> length cs \<and>
                          take (length xs) cs = xs)"
  shows "\<exists>cs'. h' q = Some (Cells cs') \<and> length cs' = n \<and>
               (length xs < n \<longrightarrow> take (length xs) cs' = xs)"
  using realloc_cells_Inr[OF assms(1,2)] assms(3) by auto

lemma malloc_cells_Some:
  "malloc_cells P h n = (Some q, h') \<Longrightarrow> whole_cells (byte_count n) = n \<Longrightarrow>
   h' = h(q := Some (Cells (fresh_cells P n)))"
  by (auto simp: malloc_cells_def split: option.splits)

lemma c_free_Inr:
  "c_free h pa = Inr h' \<Longrightarrow> h' = (case pa of None \<Rightarrow> h | Some p \<Rightarrow> h(p := None)) \<and>
     (\<forall>p. pa = Some p \<longrightarrow> h p \<noteq> None)"
  by (auto simp: c_free_def split: option.splits if_splits)

lemma array_append_step:
  assumes H: "holds s arr xs"
    and A: "array_append P (Some arr) v s = Inr (r, arrp, s')"
    and E: "a_error r = 0"
  shows "arrp = Some r \<and> holds s' r (xs @ [v])"
proof -
  have e0: "a_error arr = 0" and sz: "a_size arr = length xs"
    using H by (simp_all add: holds_def)
  have old: "case a_data arr of None \<Rightarrow> xs = []
         | Some p \<Rightarrow> (\<exists>cs. heap s p = Some (Cells cs) \<and> length xs \<le> length cs \<and>
                          take (length xs) cs = xs)"
    using H by (auto simp: holds_def split: option.splits)
  show ?thesis
  proof (cases "a_capacity arr \<le> a_size arr")
    case False
    then obtain p cs where d: "a_data arr = Some p" "heap s p = Some (Cells cs)"
      "length cs = a_capacity arr" "take (length xs) cs = xs"
      using H by (auto simp: holds_def split: option.splits)
    from A False e0 have "store_and_count arr (length xs) v s = Inr (r, arrp, s')"
      by (simp add: array_append_def sz)
    from holds_store[OF this e0 sz d(1,2,3)] d(4) show ?thesis by simp
  next
    case True
    define n where "n = to_size_t (append_new_cap (a_capacity arr))"
    have wc: "whole_cells (byte_count n) = n"
      by (simp add: n_def append_new_cap_cells)
    show ?thesis
    proof (cases "embedded P")
      case False
      from A True e0 False obtain q h1 where
        re: "realloc_cells P (heap s) (a_data arr) n = Inr (Some q, h1)"
        and st: "store_and_count (arr\<lparr>a_data := Some q, a_capacity := n\<rparr>) (length xs) v
                   (s\<lparr>heap := h1\<rparr>) = Inr (r, arrp, s')"
        using E
        by (auto simp: array_append_def sz n_def Let_def return_arr_def
            split: sum.splits option.splits prod.splits)
      from realloc_cells_keeps[OF re wc old] obtain cs' where
        c: "h1 q = Some (Cells cs')" "length cs' = n"
           "length xs < n \<longrightarrow> take (length xs) cs' = xs"
        by blast
      have "arrp = Some r \<and> holds s' r (xs @ [v])"
        by (rule holds_store[OF st, where p = q and cs = cs']) (use c e0 sz in simp_all)
      then show ?thesis .
    next
      case emb: True
      from A True e0 emb obtain q h0 h1 h2 where
        ma: "malloc_cells P (heap s) n = (Some q, h0)"
        and mc: "memcpy_cells h0 (Some q) 0 (a_data arr) 0 (length xs) = Inr h1"
        and fr: "c_free h1 (a_data arr) = Inr h2"
        and st: "store_and_count (arr\<lparr>a_data := Some q, a_capacity := n\<rparr>) (length xs) v
                   (s\<lparr>heap := h2\<rparr>) = Inr (r, arrp, s')"
        using E
        by (auto simp: array_append_def sz n_def Let_def return_arr_def
            split: sum.splits option.splits prod.splits)
      from store_and_count_Inr[OF st] obtain cs' where
        live: "h2 q = Some (Cells cs')" "length xs < length cs'"
        by auto
      have h0: "h0 = (heap s)(q := Some (Cells (fresh_cells P n)))"
        using malloc_cells_Some[OF ma wc] .
      have neq: "a_data arr \<noteq> Some q"
        using c_free_Inr[OF fr] live by (auto split: option.splits)
      have h2q: "h2 q = h1 q"
        using c_free_Inr[OF fr] neq by (auto split: option.splits)
      have "length cs' = n \<and> take (length xs) cs' = xs"
      proof (cases "length xs = 0")
        case True
        have "h1 = h0" using mc True by (simp add: memcpy_cells_def)
        then have "h1 q = Some (Cells (fresh_cells P n))" by (simp add: h0)
        then have "cs' = fresh_cells P n" using live h2q by simp
        then show ?thesis using True by simp
      next
        case False
        then have pos: "0 < length xs" by simp
        have "h0 q = Some (Cells (fresh_cells P n))" by (simp add: h0)
        from memcpy_cells_Inr[OF mc this pos] obtain ss where
          s: "load_cells h0 (a_data arr) = Inr ss" "length xs \<le> length ss" "length xs \<le> n"
            "h1 = h0(q := Some (Cells (take (length xs) ss @ drop (length xs) (fresh_cells P n))))"
          by auto
        have "take (length xs) ss = xs"
          using s(1) old neq by (auto simp: load_cells_def h0 split: option.splits block.splits)
        then show ?thesis using s live h2q by auto
      qed
      then have c: "length cs' = n" "take (length xs) cs' = xs" by simp_all
      have "arrp = Some r \<and> holds s' r (xs @ [v])"
        by (rule holds_store[OF st, where p = q and cs = cs']) (use c live e0 sz in simp_all)
      then show ?thesis .
    qed
  qed
qed

lemma append_all_failed: "a_error arr \<noteq> 0 \<Longrightarrow> append_all P vs arr s = Inr (arr, s)"
  by (induction vs) (simp_all add: array_append_def return_arr_def)

lemma append_all_holds:
  assumes "holds s arr xs" and "append_all P vs arr s = Inr (arr', s')" and "a_error arr' = 0"
  shows "holds s' arr' (xs @ vs)"
  using assms
proof (induction vs arbitrary: arr s xs)
  case Nil
  then show ?case by simp
next
  case (Cons v vs)
  from Cons.prems(2) obtain r arrp s1 where
    a: "array_append P (Some arr) v s = Inr (r, arrp, s1)"
    and rest: "append_all P vs r s1 = Inr (arr', s')"
    by (auto split: sum.splits)
  have "a_error r = 0"
  proof (rule ccontr)
    assume "a_error r \<noteq> 0"
    from append_all_failed[OF this] rest have "arr' = r" by simp
    with \<open>a_error r \<noteq> 0\<close> Cons.prems(3) show False by simp
  qed
  from array_append_step[OF Cons.prems(1) a this] have "holds s1 r (xs @ [v])" by simp
  from Cons.IH[OF this rest Cons.prems(3)] show ?case by simp
qed

lemma holds_get:
  assumes "holds s arr xs" and "i < length xs"
  shows "array_get (Some arr) i s = Inr (xs ! i, s)"
proof -
  from assms obtain p cs where d: "a_data arr = Some p" "heap s p = Some (Cells cs)"
    "length xs \<le> length cs" "take (length xs) cs = xs"
    by (auto simp: holds_def split: option.splits)
  have "cs ! i = xs ! i"
    using d(4) assms(2) by (metis nth_take)
  then show ?thesis
    using assms d by (simp add: array_get_def holds_def load_cell_def load_cells_def)
qed

lemma holds_array_0: "array P arr0 0 s = (arr, s0) \<Longrightarrow> s0 = s \<and> holds s arr []"
  by (auto simp: array_def holds_def)

lemma holds_full:
  assumes "holds s arr xs" and "a_capacity arr \<le> a_size arr"
  shows "a_capacity arr = length xs \<and> a_size arr = length xs \<and> a_error arr = 0 \<and>
         (case a_data arr of None \<Rightarrow> xs = []
          | Some b \<Rightarrow> heap s b = Some (Cells xs))"
  using assms by (auto simp: holds_def split: option.splits)

text \<open>
  What appends that go well build. An array is created with initial capacity 0 and the
  values \<open>vs\<close> are appended to it one after the other; when the run returns and the
  array's error flag is still clear at the end (the flag is sticky, so no append on the
  way met an allocation failure), the array has length \<open>length vs\<close> and \<open>array_get\<close> at
  every index \<open>i < length vs\<close> returns the \<open>i\<close>-th value appended.
\<close>

lemma appends_in_order:
  assumes "array P arr0 0 s = (arr, s0)"
    and "append_all P vs arr s0 = Inr (arr', s')"
    and "a_error arr' = 0"
  shows "a_size arr' = length vs \<and>
         (\<forall>i<length vs. array_get (Some arr') i s' = Inr (vs ! i, s'))"
proof -
  from holds_array_0[OF assms(1)] have "holds s0 arr []" by simp
  from append_all_holds[OF this assms(2,3)] have h: "holds s' arr' vs" by simp
  then have "a_size arr' = length vs" by (simp add: holds_def)
  with holds_get[OF h] show ?thesis by simp
qed

text \<open>Five appends on the desktop platform: the fifth grows the buffer from 4 to 6 cells.\<close>

lemmas eval_defs = array_append_def array_def store_and_count_def return_arr_def store_cell_def store_cells_def
  load_cells_def load_cell_def realloc_cells_def malloc_cells_def fresh_cells_def append_new_cap_def
  to_int_def to_size_t_def desktop_def first_fit_def initial_state_def unset_array_def sizeof_DynamicValue_def
  int_value_def byte_count_def whole_cells_def

lemma five_appends:
  "\<exists>arr' s'. append_all desktop (map int_value [10, 20, 30, 40, 50])
       (fst (array desktop unset_array 0 initial_state)) initial_state = Inr (arr', s') \<and>
     a_error arr' = 0 \<and> a_size arr' = 5 \<and> a_capacity arr' = 6 \<and>
     array_get (Some arr') 4 s' = Inr (int_value 50, s')"
proof -
  have a: "array desktop unset_array 0 initial_state =
      (fst (array desktop unset_array 0 initial_state), initial_state)"
    by (simp add: array_def)
  obtain arr' s' where run: "append_all desktop (map int_value [10, 20, 30, 40, 50])
       (fst (array desktop unset_array 0 initial_state)) initial_state = Inr (arr', s')"
    and e: "a_error arr' = 0" and c: "a_capacity arr' = 6"
    by (simp add: eval_defs upt_rec)
  from appends_in_order[OF a run e] show ?thesis using run e c by simp
qed


text \<open>
  When does an append go well? With an allocator that does not fail, when the buffer has
  room, or is full with at most 1431655765 elements: then one and a half times the
  capacity still fits the \<open>int new_cap\<close>.
\<close>

lemma to_int_small: "0 \<le> x \<Longrightarrow> x < 2 ^ 31 \<Longrightarrow> to_int x = x"
  by (simp add: to_int_def)

lemma append_new_cap_grows:
  assumes "c \<le> 1431655765"
  shows "to_size_t (append_new_cap c) = max 4 (c + c div 2)"
proof -
  have "int (c + c div 2) < 2 ^ 31" using assms by simp
  then have "to_int (int (c + c div 2)) = int (c + c div 2)"
    by (intro to_int_small) simp_all
  moreover have "(c + c div 2) mod 2 ^ 64 = c + c div 2"
    using assms by simp
  ultimately show ?thesis
    using assms by (auto simp: append_new_cap_def Let_def to_size_t_def max_def)
qed

lemma new_cap_above: "(c::nat) < max 4 (c + c div 2)"
  by (cases "c < 4") auto

lemma store_and_count_succeeds:
  assumes "a_data arr = Some p" "heap s p = Some (Cells cs)" "i < length cs"
  shows "store_and_count arr i v s =
           Inr (arr\<lparr>a_size := a_size arr + 1\<rparr>, Some (arr\<lparr>a_size := a_size arr + 1\<rparr>),
                s\<lparr>heap := (heap s)(p := Some (Cells (cs[i := v])))\<rparr>)"
  using assms
  by (simp add: store_and_count_def store_cell_def load_cells_def store_cells_def return_arr_def)

lemma array_append_succeeds:
  assumes G: "good_allocator P" and F: "finite (dom (heap s))"
    and H: "holds s arr xs" and B: "a_size arr < a_capacity arr \<or> length xs \<le> 1431655765"
  shows "\<exists>r s'. array_append P (Some arr) v s = Inr (r, Some r, s') \<and> a_error r = 0 \<and>
           finite (dom (heap s'))"
proof -
  have e0: "a_error arr = 0" and sz: "a_size arr = length xs"
    using H by (simp_all add: holds_def)
  show ?thesis
  proof (cases "a_capacity arr \<le> a_size arr")
    case False
    then obtain p cs where d: "a_data arr = Some p" "heap s p = Some (Cells cs)"
      "length cs = a_capacity arr"
      using H by (auto simp: holds_def split: option.splits)
    with False have "a_size arr < length cs" by simp
    from store_and_count_succeeds[OF d(1,2) this, of v] False e0 F show ?thesis
      by (simp add: array_append_def)
  next
    case True
    define n where "n = to_size_t (append_new_cap (a_capacity arr))"
    have wc: "whole_cells (byte_count n) = n"
      by (simp add: n_def append_new_cap_cells)
    have cap: "a_capacity arr = length xs"
      using H True sz by (auto simp: holds_def split: option.splits)
    from B True have B': "length xs \<le> 1431655765" by simp
    have n: "length xs < n"
      using append_new_cap_grows[of "a_capacity arr"] B' new_cap_above[of "length xs"]
      by (simp add: n_def cap)
    show ?thesis
    proof (cases "embedded P")
      case False
      show ?thesis
      proof (cases "a_data arr")
        case None
        from G F obtain q where q: "malloc P (heap s) (byte_count n) = Some q"
          by (auto simp: good_allocator_def)
        have re: "realloc_cells P (heap s) (a_data arr) n =
            Inr (Some q, (heap s)(q := Some (Cells (fresh_cells P n))))"
          using None q by (simp add: realloc_cells_def malloc_cells_def wc)
        have "store_and_count (arr\<lparr>a_data := Some q, a_capacity := n\<rparr>) (a_size arr) v
                (s\<lparr>heap := (heap s)(q := Some (Cells (fresh_cells P n)))\<rparr>) = 
              Inr (arr\<lparr>a_data := Some q, a_capacity := n, a_size := a_size arr + 1\<rparr>,
                   Some (arr\<lparr>a_data := Some q, a_capacity := n, a_size := a_size arr + 1\<rparr>),
                   s\<lparr>heap := ((heap s)(q := Some (Cells (fresh_cells P n))))
                       (q := Some (Cells ((fresh_cells P n)[a_size arr := v])))\<rparr>)"
          using n sz by (subst store_and_count_succeeds[where p = q and cs = "fresh_cells P n"]) simp_all
        with re True False e0 F show ?thesis
          by (simp add: array_append_def n_def[symmetric])
      next
        case (Some p)
        with H obtain cs where cs: "heap s p = Some (Cells cs)" "length cs = a_capacity arr"
          by (auto simp: holds_def)
        have "finite (dom ((heap s)(p := None)))" using F by simp
        with G obtain q where q: "malloc P ((heap s)(p := None)) (byte_count n) = Some q"
          unfolding good_allocator_def by blast
        define cs' where "cs' = take n cs @ drop (length cs) (fresh_cells P n)"
        have l: "length cs' = n" by (simp add: cs'_def)
        have re: "realloc_cells P (heap s) (a_data arr) n =
            Inr (Some q, ((heap s)(p := None))(q := Some (Cells cs')))"
          using Some q cs by (simp add: realloc_cells_def cs'_def wc)
        have "store_and_count (arr\<lparr>a_data := Some q, a_capacity := n\<rparr>) (a_size arr) v
                (s\<lparr>heap := ((heap s)(p := None))(q := Some (Cells cs'))\<rparr>) = 
              Inr (arr\<lparr>a_data := Some q, a_capacity := n, a_size := a_size arr + 1\<rparr>,
                   Some (arr\<lparr>a_data := Some q, a_capacity := n, a_size := a_size arr + 1\<rparr>),
                   s\<lparr>heap := (((heap s)(p := None))(q := Some (Cells cs')))
                       (q := Some (Cells (cs'[a_size arr := v])))\<rparr>)"
          using n sz l by (subst store_and_count_succeeds[where p = q and cs = cs']) simp_all
        with re True False e0 F show ?thesis
          by (simp add: array_append_def n_def[symmetric])
      qed
    next
      case emb: True
      from G F obtain q where q: "malloc P (heap s) (byte_count n) = Some q"
        "heap s q = None"
        unfolding good_allocator_def by blast
      define h0 where "h0 = (heap s)(q := Some (Cells (fresh_cells P n)))"
      have ma: "malloc_cells P (heap s) n = (Some q, h0)"
        using q by (simp add: malloc_cells_def h0_def wc)
      have neq: "a_data arr \<noteq> Some q"
        using H q(2) by (auto simp: holds_def split: option.splits)
      obtain h1 cs1 where mc: "memcpy_cells h0 (Some q) 0 (a_data arr) 0 (a_size arr) = Inr h1"
        and h1: "h1 = h0(q := Some (Cells cs1))" "length cs1 = n"
      proof (cases "a_size arr = 0")
        case True
        show ?thesis
          by (rule that[of h0 "fresh_cells P n"]) (simp_all add: True memcpy_cells_def h0_def)
      next
        case False
        with sz H obtain p cs where cs: "a_data arr = Some p" "heap s p = Some (Cells cs)"
          "length xs \<le> length cs"
          by (auto simp: holds_def split: option.splits)
        with neq have "p \<noteq> q" by simp
        show ?thesis
          by (rule that[of _ "take 0 (fresh_cells P n) @ take (a_size arr) (drop 0 cs) @
                  drop (0 + a_size arr) (fresh_cells P n)"])
            (use False cs \<open>p \<noteq> q\<close> n sz in
              \<open>simp_all add: memcpy_cells_def load_cells_def store_cells_def h0_def\<close>)
      qed
      obtain h2 where fr: "c_free h1 (a_data arr) = Inr h2" and h2: "h2 q = Some (Cells cs1)"
        "finite (dom h2)"
      proof (cases "a_data arr")
        case None
        show ?thesis
          by (rule that[of h1]) (use None h1 F in \<open>simp_all add: c_free_def h0_def\<close>)
      next
        case (Some p)
        with neq have pq: "p \<noteq> q" by simp
        from Some H obtain cs where "heap s p = Some (Cells cs)" by (auto simp: holds_def)
        with pq have live: "h1 p \<noteq> None" by (simp add: h1 h0_def)
        show ?thesis
          by (rule that[of "h1(p := None)"])
            (use Some live pq h1 F in \<open>simp_all add: c_free_def h0_def\<close>)
      qed
      have "store_and_count (arr\<lparr>a_data := Some q, a_capacity := n\<rparr>) (a_size arr) v
                (s\<lparr>heap := h2\<rparr>) = 
              Inr (arr\<lparr>a_data := Some q, a_capacity := n, a_size := a_size arr + 1\<rparr>,
                   Some (arr\<lparr>a_data := Some q, a_capacity := n, a_size := a_size arr + 1\<rparr>),
                   s\<lparr>heap := h2(q := Some (Cells (cs1[a_size arr := v])))\<rparr>)"
        using n sz h1(2) h2(1)
        by (subst store_and_count_succeeds[where p = q and cs = cs1]) simp_all
      with ma mc fr True emb e0 h2(2) show ?thesis
        by (simp add: array_append_def n_def[symmetric])
    qed
  qed
qed

lemma append_all_succeeds:
  assumes "good_allocator P" and "finite (dom (heap s))" and "holds s arr xs"
    and "length xs + length vs \<le> 1431655766"
  shows "\<exists>arr' s'. append_all P vs arr s = Inr (arr', s') \<and> a_error arr' = 0"
  using assms(2-)
proof (induction vs arbitrary: arr s xs)
  case Nil
  then show ?case by (simp add: holds_def)
next
  case (Cons v vs)
  from Cons.prems have "a_size arr < a_capacity arr \<or> length xs \<le> 1431655765" by simp
  from array_append_succeeds[OF assms(1) Cons.prems(1,2) this, of v] obtain r s1 where
    a: "array_append P (Some arr) v s = Inr (r, Some r, s1)" "a_error r = 0"
      "finite (dom (heap s1))"
    by blast
  from array_append_step[OF Cons.prems(2) a(1,2)] have h: "holds s1 r (xs @ [v])" by simp
  from Cons.IH[OF a(3) h] Cons.prems(3) a(1) show ?case by simp
qed


lemma good_allocator_least: "good_allocator (P\<lparr>malloc := \<lambda>h n. Some (LEAST q. h q = None)\<rparr>)"
proof -
  have "h (LEAST q. h q = None) = None" if "finite (dom h)" for h :: heap
  proof -
    from that obtain q where "q \<notin> dom h" using ex_new_if_finite infinite_UNIV_nat by blast
    then have "h q = None" by auto
    then show ?thesis by (rule LeastI)
  qed
  then show ?thesis by (simp add: good_allocator_def)
qed

text \<open>
  The other side of the bound: from a full array of 1431655766 elements on, one and a
  half times the capacity no longer fits \<open>int new_cap\<close>, which becomes 4, and no append
  succeeds. It returns only when the allocator fails; otherwise the store, or the embedded
  build's \<open>memcpy\<close>, falls outside the new buffer of 4 cells.
\<close>

lemma append_new_cap_wraps:
  assumes "1431655766 \<le> c" and "c \<le> 2863311530"
  shows "append_new_cap c = 4"
proof -
  define x where "x = int (c + c div 2)"
  have x: "2 ^ 31 \<le> x" "x < 2 ^ 32" using assms by (simp_all add: x_def)
  then have "(x + 2 ^ 31) mod 2 ^ 32 = x - 2 ^ 31"
    by (intro int_mod_pos_eq[where q = 1]) simp_all
  then have "to_int x < 0" using x by (simp add: to_int_def)
  moreover have "(c + c div 2) mod 2 ^ 64 = c + c div 2"
    using assms by simp
  ultimately show ?thesis by (simp add: append_new_cap_def x_def Let_def)
qed

lemma array_append_capacity:
  assumes "array_append P (Some arr) v s = Inr (r, arrp, s')" and "a_error r = 0"
    and "a_error arr = 0"
  shows "a_capacity r = (if a_capacity arr \<le> a_size arr
                         then to_size_t (append_new_cap (a_capacity arr)) else a_capacity arr)"
  using assms
  by (auto simp: array_append_def Let_def return_arr_def
      split: if_splits sum.splits option.splits prod.splits dest!: store_and_count_Inr)

lemma array_append_wrapped:
  assumes H: "holds s arr xs" and full: "a_capacity arr \<le> a_size arr"
    and big: "1431655766 \<le> length xs" "length xs \<le> 2863311530"
    and run: "array_append P (Some arr) v s = Inr (r, arrp, s')"
  shows "a_error r \<noteq> 0"
proof
  assume ok: "a_error r = 0"
  have c: "a_capacity arr = length xs" and e: "a_error arr = 0"
    using holds_full[OF H full] by simp_all
  from array_append_capacity[OF run ok e] full c append_new_cap_wraps[OF big]
  have "a_capacity r = 4" by (simp add: to_size_t_def)
  moreover from array_append_step[OF H run ok] have "length (xs @ [v]) \<le> a_capacity r"
    by (auto simp: holds_def split: option.splits)
  ultimately show False using big by simp
qed

text \<open>
  The capacities on the way: each entry of \<open>capacities\<close> is followed by the \<open>new_cap\<close>
  computed from it. An array created with capacity 0 keeps its capacity among them while
  it has at most 1551591828 elements, and every append up to there goes well.
\<close>

lemma capacities_grow:
  "list_all2 (\<lambda>c c'. c' = to_size_t (append_new_cap c)) (butlast capacities) (tl capacities)"
  by (simp add: capacities_def append_new_cap_def to_int_def to_size_t_def)

lemma capacities_next:
  assumes "c \<in> set capacities" and "c \<noteq> 1551591828"
  shows "to_size_t (append_new_cap c) \<in> set capacities \<and> c \<le> 1431655765"
proof -
  have "set capacities = insert 1551591828 (set (butlast capacities))"
    by (simp add: capacities_def insert_commute)
  with assms have b: "c \<in> set (butlast capacities)" by simp
  have "\<forall>x \<in> set (butlast capacities). x \<le> 1431655765"
    by (simp add: capacities_def)
  with b have le: "c \<le> 1431655765" by blast
  from b obtain i where i: "i < length (butlast capacities)" "butlast capacities ! i = c"
    by (auto simp: in_set_conv_nth)
  from capacities_grow i have "tl capacities ! i = to_size_t (append_new_cap c)"
    and "i < length (tl capacities)"
    by (auto simp: list_all2_conv_all_nth)
  then have "to_size_t (append_new_cap c) \<in> set (tl capacities)"
    by (metis nth_mem)
  then have "to_size_t (append_new_cap c) \<in> set capacities"
    by (metis list.set_sel(2) tl_Nil)
  with le show ?thesis by simp
qed

lemma capacities_max: "c \<in> set capacities \<Longrightarrow> c \<le> 1551591828"
proof -
  have "\<forall>x \<in> set capacities. x \<le> 1551591828"
    by (simp add: capacities_def)
  then show "c \<in> set capacities \<Longrightarrow> c \<le> 1551591828" by blast
qed

lemma append_all_append:
  "append_all P (us @ vs) arr s =
     (case append_all P us arr s of Inl e \<Rightarrow> Inl e | Inr (r, s') \<Rightarrow> append_all P vs r s')"
  by (induction us arbitrary: arr s) (auto split: sum.splits)

lemma append_all_capacities:
  assumes G: "good_allocator P"
  shows "finite (dom (heap s)) \<Longrightarrow> holds s arr xs \<Longrightarrow> a_capacity arr \<in> set capacities \<Longrightarrow>
    length xs + length vs \<le> 1551591828 \<Longrightarrow>
    \<exists>arr' s'. append_all P vs arr s = Inr (arr', s') \<and> holds s' arr' (xs @ vs) \<and>
       a_capacity arr' \<in> set capacities \<and> finite (dom (heap s'))"
proof (induction vs arbitrary: arr s xs)
  case Nil
  then show ?case by simp
next
  case (Cons v vs)
  have e0: "a_error arr = 0" and sz: "a_size arr = length xs"
    using Cons.prems(2) by (simp_all add: holds_def)
  have B: "a_size arr < a_capacity arr \<or> length xs \<le> 1431655765"
  proof (cases "a_size arr < a_capacity arr")
    case False
    then have full: "a_capacity arr \<le> a_size arr" by simp
    from holds_full[OF Cons.prems(2) full] have "a_capacity arr = length xs" by simp
    moreover from Cons.prems(4) have "length xs \<noteq> 1551591828" by simp
    ultimately show ?thesis using capacities_next[OF Cons.prems(3)] by simp
  qed simp
  from array_append_succeeds[OF G Cons.prems(1,2) B, of v] obtain r s1 where
    a: "array_append P (Some arr) v s = Inr (r, Some r, s1)" "a_error r = 0"
      "finite (dom (heap s1))"
    by blast
  from array_append_step[OF Cons.prems(2) a(1,2)] have h: "holds s1 r (xs @ [v])" by simp
  have c: "a_capacity r \<in> set capacities"
  proof (cases "a_capacity arr \<le> a_size arr")
    case True
    from holds_full[OF Cons.prems(2) True] have "a_capacity arr = length xs" by simp
    moreover from Cons.prems(4) have "length xs \<noteq> 1551591828" by simp
    ultimately show ?thesis
      using capacities_next[OF Cons.prems(3)] array_append_capacity[OF a(1,2) e0] True by simp
  next
    case False
    then show ?thesis
      using array_append_capacity[OF a(1,2) e0] Cons.prems(3) by simp
  qed
  from Cons.prems(4) have "length (xs @ [v]) + length vs \<le> 1551591828" by simp
  from Cons.IH[OF a(3) h c this] a(1) show ?case by simp
qed

lemma array_append_overflow:
  assumes G: "good_allocator P" and F: "finite (dom (heap s))"
    and H: "holds s arr xs" and full: "a_capacity arr \<le> a_size arr"
    and big: "1431655766 \<le> length xs" "length xs \<le> 2863311530"
  shows "array_append P (Some arr) v s = Inl Out_Of_Bounds"
proof -
  note Fu = holds_full[OF H full]
  from Fu big obtain p where p: "a_data arr = Some p" "heap s p = Some (Cells xs)"
    by (cases "a_data arr") auto
  have n: "to_size_t (append_new_cap (a_capacity arr)) = 4"
    using append_new_cap_wraps[OF big] Fu by (simp add: to_size_t_def)
  have wc: "whole_cells (byte_count 4) = 4"
    by (simp add: whole_cells_byte_count)
  show ?thesis
  proof (cases "embedded P")
    case False
    have "finite (dom ((heap s)(p := None)))" using F by simp
    with G obtain q where q: "malloc P ((heap s)(p := None)) (byte_count 4) = Some q"
      unfolding good_allocator_def by blast
    show ?thesis
      using False Fu p n q wc big
      by (simp add: array_append_def realloc_cells_def store_and_count_def store_cell_def
          load_cells_def)
  next
    case True
    from G F obtain q where q: "malloc P (heap s) (byte_count 4) = Some q" "heap s q = None"
      unfolding good_allocator_def by blast
    with p have "p \<noteq> q" by auto
    moreover from big have "xs \<noteq> []" by auto
    ultimately show ?thesis
      using True Fu p n q wc big
      by (simp add: array_append_def malloc_cells_def memcpy_cells_def load_cells_def)
  qed
qed

text \<open>
  Claim C1, at a failing input: an array created with capacity 0 and 1551591829 appends,
  on either build, with an allocator that never fails. The first 1551591828 appends go
  well and leave a full buffer of 1551591828 cells. For the next one
  \<open>int new_cap = arr->capacity + (arr->capacity >> 1)\<close> is 2327387742 converted to
  \<open>int\<close>, which is negative, so \<open>new_cap\<close> becomes 4: the buffer is reallocated to 4
  cells and the store \<open>arr->data[arr->size] = val\<close> at index 1551591828 (on the embedded
  build the \<open>memcpy\<close> of 1551591828 cells) falls outside it. No allocation has failed and
  the array of length 1551591829 that the claim describes does not exist.
\<close>

theorem append_overflows_new_cap:
  assumes "good_allocator P" and "finite (dom (heap s))" and "length vs = 1551591828"
  shows "(\<exists>arr' s'. array_0_appends P arr0 vs s = Inr (arr', s') \<and> a_error arr' = 0 \<and>
            a_size arr' = 1551591828 \<and> a_capacity arr' = 1551591828 \<and>
            array_get (Some arr') 1551591827 s' = Inr (vs ! 1551591827, s')) \<and>
         array_0_appends P arr0 (vs @ [v]) s = Inl Out_Of_Bounds"
proof -
  obtain arr where a: "array P arr0 0 s = (arr, s)" and h0: "holds s arr []"
    by (auto simp: array_def holds_def)
  have c0: "a_capacity arr \<in> set capacities"
    using a by (auto simp: array_def capacities_def)
  have "length ([] :: DynamicValue list) + length vs \<le> 1551591828"
    using assms(3) by simp
  from append_all_capacities[OF assms(1,2) h0 c0 this] obtain arr' s' where
    r: "append_all P vs arr s = Inr (arr', s')" "holds s' arr' vs"
       "a_capacity arr' \<in> set capacities" "finite (dom (heap s'))"
    by auto
  have sz: "a_size arr' = 1551591828" and e: "a_error arr' = 0"
    using r(2) assms(3) by (simp_all add: holds_def)
  have "length vs \<le> a_capacity arr'"
    using r(2) assms(3) by (auto simp: holds_def split: option.splits)
  with capacities_max[OF r(3)] assms(3) have cap: "a_capacity arr' = 1551591828" by simp
  have g: "array_get (Some arr') 1551591827 s' = Inr (vs ! 1551591827, s')"
    using holds_get[OF r(2), of 1551591827] assms(3) by simp
  have "array_append P (Some arr') v s' = Inl Out_Of_Bounds"
    by (rule array_append_overflow[OF assms(1) r(4) r(2)]) (simp_all add: sz cap assms(3))
  then have "append_all P (vs @ [v]) arr s = Inl Out_Of_Bounds"
    using r(1) by (simp add: append_all_append)
  with a r(1) sz e cap g show ?thesis
    by (simp add: array_0_appends_def)
qed

text \<open>The run on the desktop build with the allocator that never fails, appending 7.\<close>

theorem append_overflows_new_cap_witness:
  "(\<exists>arr' s'. array_0_appends roomy unset_array (replicate 1551591828 (int_value 7))
        initial_state = Inr (arr', s') \<and>
      a_error arr' = 0 \<and> a_size arr' = 1551591828 \<and> a_capacity arr' = 1551591828 \<and>
      array_get (Some arr') 1551591827 s' = Inr (int_value 7, s')) \<and>
   array_0_appends roomy unset_array (replicate 1551591828 (int_value 7) @ [int_value 7])
     initial_state = Inl Out_Of_Bounds"
proof -
  have g: "good_allocator roomy"
    unfolding roomy_def by (rule good_allocator_least)
  have f: "finite (dom (heap initial_state))"
    by (simp add: initial_state_def)
  have l: "length (replicate 1551591828 (int_value 7)) = 1551591828"
    by simp
  from append_overflows_new_cap[OF g f l, of unset_array "int_value 7"] show ?thesis
    by simp
qed

text \<open>
  Claim C6. On an array that has not failed, \<open>array_get\<close> and \<open>array_remove\<close> with
  \<open>index \<ge> size\<close> return the failed \<open>EASS_NULL\<close> value, and \<open>array_insert\<close> with
  \<open>index > size\<close> returns the array; each records \<open>EINVAL\<close> in the error slot and
  leaves the array struct (data pointer, size, capacity, error flag) and the whole heap,
  hence the contents, as they were.
\<close>

theorem bad_index_rejected:
  assumes "a_error arr = 0"
  shows "(a_size arr \<le> index \<longrightarrow>
            (\<exists>s'. array_get (Some arr) index s = Inr (invalid_value, s') \<and>
                  heap s' = heap s \<and> code (eass_last_error s') = EINVAL) \<and>
            (\<exists>s'. array_remove (Some arr) index s = Inr (invalid_value, Some arr, s') \<and>
                  heap s' = heap s \<and> code (eass_last_error s') = EINVAL)) \<and>
         (a_size arr < index \<longrightarrow>
            (\<exists>s'. array_insert P (Some arr) index val s = Inr (arr, Some arr, s') \<and>
                  heap s' = heap s \<and> code (eass_last_error s') = EINVAL)) \<and>
         v_type invalid_value = EASS_NULL \<and> v_error invalid_value = 1"
  using assms
  by (simp add: array_get_def array_insert_def array_remove_def return_arr_def
      invalid_value_def set_error_def)

theorem bad_index_rejected_witness:
  "(\<exists>s'. array_get (Some four_full) 4 four_state = Inr (invalid_value, s') \<and>
         heap s' = heap four_state \<and> code (eass_last_error s') = 22) \<and>
   (\<exists>s'. array_remove (Some four_full) 4 four_state = Inr (invalid_value, Some four_full, s') \<and>
         heap s' = heap four_state \<and> code (eass_last_error s') = 22) \<and>
   (\<exists>s'. array_insert desktop (Some four_full) 5 (int_value 99) four_state =
           Inr (four_full, Some four_full, s') \<and>
         heap s' = heap four_state \<and> code (eass_last_error s') = 22)"
proof -
  have e: "a_error four_full = 0" and sz: "a_size four_full \<le> 4" "a_size four_full < 5"
    by (simp_all add: four_full_def)
  from bad_index_rejected[OF e, of 4 four_state desktop "int_value 99"] sz(1)
  have g: "(\<exists>s'. array_get (Some four_full) 4 four_state = Inr (invalid_value, s') \<and>
         heap s' = heap four_state \<and> code (eass_last_error s') = 22) \<and>
   (\<exists>s'. array_remove (Some four_full) 4 four_state = Inr (invalid_value, Some four_full, s') \<and>
         heap s' = heap four_state \<and> code (eass_last_error s') = 22)"
    by (simp add: EINVAL_def)
  from bad_index_rejected[OF e, of 5 four_state desktop "int_value 99"] sz(2)
  have "\<exists>s'. array_insert desktop (Some four_full) 5 (int_value 99) four_state =
           Inr (four_full, Some four_full, s') \<and>
         heap s' = heap four_state \<and> code (eass_last_error s') = 22"
    by (simp add: EINVAL_def)
  with g show ?thesis by blast
qed

text \<open>
  Claim C7. On an array whose error flag is set, \<open>array_append\<close>, \<open>array_insert\<close> and
  \<open>array_remove\<close> change nothing: the struct behind \<open>arr\<close> and the state (heap, error
  slot, output) are the ones before the call. Append and insert hand the failed array
  back; remove returns the failed \<open>EASS_NULL\<close> value.
\<close>

theorem failed_array_is_frozen:
  assumes "a_error arr \<noteq> 0"
  shows "array_append P (Some arr) val s = Inr (arr, Some arr, s) \<and>
         array_insert P (Some arr) index val s = Inr (arr, Some arr, s) \<and>
         array_remove (Some arr) index s = Inr (invalid_value, Some arr, s) \<and>
         v_error invalid_value \<noteq> 0"
  using assms
  by (simp add: array_append_def array_insert_def array_remove_def return_arr_def invalid_value_def)

theorem failed_array_is_frozen_witness:
  "array_append desktop (Some (four_full\<lparr>a_error := 1\<rparr>)) (int_value 99) four_state =
     Inr (four_full\<lparr>a_error := 1\<rparr>, Some (four_full\<lparr>a_error := 1\<rparr>), four_state) \<and>
   array_insert desktop (Some (four_full\<lparr>a_error := 1\<rparr>)) 2 (int_value 99) four_state =
     Inr (four_full\<lparr>a_error := 1\<rparr>, Some (four_full\<lparr>a_error := 1\<rparr>), four_state) \<and>
   array_remove (Some (four_full\<lparr>a_error := 1\<rparr>)) 2 four_state =
     Inr (invalid_value, Some (four_full\<lparr>a_error := 1\<rparr>), four_state)"
proof -
  have "a_error (four_full\<lparr>a_error := 1\<rparr>) \<noteq> 0" by simp
  from failed_array_is_frozen[OF this, of desktop "int_value 99" four_state 2]
  show ?thesis by simp
qed

text \<open>
  Insert and remove where no reallocation is involved. The two loops move the cells one
  place to the right from \<open>index\<close> up to \<open>n\<close>, and one place to the left from \<open>index\<close> up
  to \<open>n\<close>.
\<close>

lemma shift_right_cells:
  assumes "h b = Some (Cells cs)" and "index \<le> n" and "n < length cs"
  shows "\<exists>cs'. shift_right h (Some b) index n = Inr (h(b := Some (Cells cs'))) \<and>
           length cs' = length cs \<and>
           (\<forall>j<length cs. cs' ! j = (if index < j \<and> j \<le> n then cs ! (j - 1) else cs ! j))"
  using assms
proof (induction n arbitrary: h cs)
  case 0
  then have "shift_right h (Some b) index 0 = Inr h" by (simp add: shift_right.simps)
  moreover have "h = h(b := Some (Cells cs))" using 0 by auto
  ultimately show ?case by (intro exI[of _ cs]) auto
next
  case (Suc n)
  show ?case
  proof (cases "index = Suc n")
    case True
    then have "shift_right h (Some b) index (Suc n) = Inr h" by (simp add: shift_right.simps)
    moreover have "h = h(b := Some (Cells cs))" using Suc.prems by auto
    ultimately show ?thesis using True by (intro exI[of _ cs]) auto
  next
    case False
    with Suc.prems have le: "index \<le> n" and lt: "index < Suc n" by simp_all
    define cs1 where "cs1 = cs[Suc n := cs ! n]"
    define h1 where "h1 = h(b := Some (Cells cs1))"
    have step: "shift_right h (Some b) index (Suc n) = shift_right h1 (Some b) index n"
      using Suc.prems lt
      by (subst shift_right.simps)
        (simp add: load_cell_def load_cells_def store_cell_def store_cells_def h1_def cs1_def)
    have "h1 b = Some (Cells cs1)" "n < length cs1"
      using Suc.prems by (simp_all add: h1_def cs1_def)
    from Suc.IH[of h1 cs1, OF this(1) le this(2)] obtain cs' where
      r: "shift_right h1 (Some b) index n = Inr (h1(b := Some (Cells cs')))"
         "length cs' = length cs1"
         "\<forall>j<length cs1. cs' ! j = (if index < j \<and> j \<le> n then cs1 ! (j - 1) else cs1 ! j)"
      by blast
    have "h1(b := Some (Cells cs')) = h(b := Some (Cells cs'))" by (simp add: h1_def)
    with step r(1) have 1: "shift_right h (Some b) index (Suc n) = Inr (h(b := Some (Cells cs')))"
      by simp
    have 2: "length cs' = length cs" using r(2) by (simp add: cs1_def)
    have 3: "cs' ! j = (if index < j \<and> j \<le> Suc n then cs ! (j - 1) else cs ! j)"
      if "j < length cs" for j
      using r(3) that Suc.prems(3) lt by (auto simp: cs1_def nth_list_update)
    show ?thesis
      by (rule exI[of _ cs']) (use 1 2 3 in blast)
  qed
qed

lemma shift_left_cells:
  assumes "h b = Some (Cells cs)" and "i \<le> n" and "n < length cs"
  shows "\<exists>cs'. shift_left h (Some b) n i = Inr (h(b := Some (Cells cs'))) \<and>
           length cs' = length cs \<and>
           (\<forall>j<length cs. cs' ! j = (if i \<le> j \<and> j < n then cs ! (j + 1) else cs ! j))"
  using assms
proof (induction "n - i" arbitrary: h cs i)
  case 0
  then have "shift_left h (Some b) n i = Inr h" by (simp add: shift_left.simps)
  moreover have "h = h(b := Some (Cells cs))" using 0 by auto
  ultimately show ?case using 0 by (intro exI[of _ cs]) auto
next
  case (Suc k)
  then have lt: "i < n" by simp
  define cs1 where "cs1 = cs[i := cs ! (i + 1)]"
  define h1 where "h1 = h(b := Some (Cells cs1))"
  have step: "shift_left h (Some b) n i = shift_left h1 (Some b) n (i + 1)"
    using Suc.prems lt
    by (subst shift_left.simps)
      (simp add: load_cell_def load_cells_def store_cell_def store_cells_def h1_def cs1_def)
  have "k = n - (i + 1)" "h1 b = Some (Cells cs1)" "i + 1 \<le> n" "n < length cs1"
    using Suc.prems Suc.hyps(2) lt by (simp_all add: h1_def cs1_def)
  from Suc.hyps(1)[of "i + 1" h1 cs1, OF this] obtain cs' where
    r: "shift_left h1 (Some b) n (i + 1) = Inr (h1(b := Some (Cells cs')))"
       "length cs' = length cs1"
       "\<forall>j<length cs1. cs' ! j = (if i + 1 \<le> j \<and> j < n then cs1 ! (j + 1) else cs1 ! j)"
    by blast
  have "h1(b := Some (Cells cs')) = h(b := Some (Cells cs'))" by (simp add: h1_def)
  with step r(1) have 1: "shift_left h (Some b) n i = Inr (h(b := Some (Cells cs')))"
    by simp
  have 2: "length cs' = length cs" using r(2) by (simp add: cs1_def)
  have 3: "cs' ! j = (if i \<le> j \<and> j < n then cs ! (j + 1) else cs ! j)"
    if "j < length cs" for j
    using r(3) that Suc.prems(3) lt by (auto simp: cs1_def nth_list_update)
  show ?case
    by (rule exI[of _ cs']) (use 1 2 3 in blast)
qed

lemma holdsD:
  assumes "holds s arr xs" and "xs \<noteq> [] \<or> 0 < a_capacity arr"
  obtains b cs where "a_data arr = Some b" "heap s b = Some (Cells cs)"
    "length cs = a_capacity arr" "length xs \<le> length cs" "take (length xs) cs = xs"
    "a_size arr = length xs" "a_error arr = 0"
  using assms by (auto simp: holds_def split: option.splits)

lemma array_insert_in_place:
  assumes H: "holds s arr xs" and room: "a_size arr < a_capacity arr"
    and i: "index \<le> length xs"
  shows "\<exists>arr' s'. array_insert P (Some arr) index v s = Inr (arr', Some arr', s') \<and>
           a_capacity arr' = a_capacity arr \<and>
           holds s' arr' (take index xs @ v # drop index xs)"
proof -
  from H room obtain b cs where d: "a_data arr = Some b" "heap s b = Some (Cells cs)"
    "length cs = a_capacity arr" "length xs \<le> length cs" "take (length xs) cs = xs"
    "a_size arr = length xs" "a_error arr = 0"
    by (elim holdsD) auto
  have n: "length xs < length cs" using room d by simp
  from shift_right_cells[of "heap s" b cs index "length xs", OF d(2) i n] obtain cs' where
    sh: "shift_right (heap s) (Some b) index (length xs) = Inr ((heap s)(b := Some (Cells cs')))"
    and l: "length cs' = length cs"
    and c: "\<And>j. j < length cs \<Longrightarrow>
              cs' ! j = (if index < j \<and> j \<le> length xs then cs ! (j - 1) else cs ! j)"
    by blast
  define arr' where "arr' = arr\<lparr>a_size := a_size arr + 1\<rparr>"
  define s' where "s' = s\<lparr>heap := (heap s)(b := Some (Cells (cs'[index := v])))\<rparr>"
  have run: "array_insert P (Some arr) index v s = Inr (arr', Some arr', s')"
    using d room i sh l n
    by (simp add: array_insert_def store_and_count_def store_cell_def load_cells_def
        store_cells_def return_arr_def arr'_def s'_def)
  have nth_xs: "cs ! j = xs ! j" if "j < length xs" for j
    using d(5) that by (metis nth_take)
  have "take (Suc (length xs)) (cs'[index := v]) = take index xs @ v # drop index xs"
  proof (rule nth_equalityI)
    show "length (take (Suc (length xs)) (cs'[index := v])) =
          length (take index xs @ v # drop index xs)"
      using n l i by simp
  next
    fix j
    assume "j < length (take (Suc (length xs)) (cs'[index := v]))"
    then have j: "j \<le> length xs" using n l by simp
    consider "j < index" | "j = index" | "index < j" by linarith
    then show "take (Suc (length xs)) (cs'[index := v]) ! j =
               (take index xs @ v # drop index xs) ! j"
    proof cases
      case 1
      then show ?thesis using j n l i c[of j] nth_xs[of j] by (simp add: nth_append)
    next
      case 2
      then show ?thesis using j n l i by (simp add: nth_append)
    next
      case 3
      then have "(take index xs @ v # drop index xs) ! j = xs ! (j - 1)"
        using i j by (simp add: nth_append nth_Cons')
      moreover have "cs' ! j = xs ! (j - 1)"
        using 3 j n c[of j] nth_xs[of "j - 1"] by simp
      ultimately show ?thesis using 3 j n l by simp
    qed
  qed
  then have "holds s' arr' (take index xs @ v # drop index xs)"
    using d l n i by (simp add: holds_def arr'_def s'_def)
  with run show ?thesis by (auto simp: arr'_def)
qed

lemma array_remove_holds:
  assumes H: "holds s arr xs" and i: "index < length xs"
  shows "\<exists>arr' s'. array_remove (Some arr) index s = Inr (xs ! index, Some arr', s') \<and>
           a_capacity arr' = a_capacity arr \<and>
           holds s' arr' (take index xs @ drop (Suc index) xs)"
proof -
  from H i obtain b cs where d: "a_data arr = Some b" "heap s b = Some (Cells cs)"
    "length cs = a_capacity arr" "length xs \<le> length cs" "take (length xs) cs = xs"
    "a_size arr = length xs" "a_error arr = 0"
    by (elim holdsD) auto
  have nth_xs: "cs ! j = xs ! j" if "j < length xs" for j
    using d(5) that by (metis nth_take)
  have le: "index \<le> length xs - 1" and n: "length xs - 1 < length cs"
    using i d(4) by simp_all
  from shift_left_cells[of "heap s" b cs index "length xs - 1", OF d(2) le n] obtain cs' where
    sh: "shift_left (heap s) (Some b) (length xs - 1) index =
           Inr ((heap s)(b := Some (Cells cs')))"
    and l: "length cs' = length cs"
    and c: "\<And>j. j < length cs \<Longrightarrow>
              cs' ! j = (if index \<le> j \<and> j < length xs - 1 then cs ! (j + 1) else cs ! j)"
    by blast
  define arr' where "arr' = arr\<lparr>a_size := a_size arr - 1\<rparr>"
  define s' where "s' = s\<lparr>heap := (heap s)(b := Some (Cells cs'))\<rparr>"
  have run: "array_remove (Some arr) index s = Inr (xs ! index, Some arr', s')"
    using d i sh nth_xs[OF i]
    by (simp add: array_remove_def load_cell_def load_cells_def arr'_def s'_def)
  have "take (length xs - 1) cs' = take index xs @ drop (Suc index) xs"
  proof (rule nth_equalityI)
    show "length (take (length xs - 1) cs') = length (take index xs @ drop (Suc index) xs)"
      using i l d(4) by simp
  next
    fix j
    assume "j < length (take (length xs - 1) cs')"
    then have j: "j < length xs - 1" by simp
    then have "j < length cs" using d(4) by simp
    from c[OF this] j i nth_xs[of j] nth_xs[of "Suc j"]
    show "take (length xs - 1) cs' ! j = (take index xs @ drop (Suc index) xs) ! j"
      by (auto simp: nth_append)
  qed
  then have "holds s' arr' (take index xs @ drop (Suc index) xs)"
    using d l i by (simp add: holds_def arr'_def s'_def)
  with run show ?thesis by (auto simp: arr'_def)
qed

lemma insert_remove_in_place:
  assumes "holds s arr xs" and "a_size arr < a_capacity arr" and "index \<le> length xs"
  shows "\<exists>arr1 s1 arr2 s2.
           array_insert P (Some arr) index v s = Inr (arr1, Some arr1, s1) \<and>
           array_remove (Some arr1) index s1 = Inr (v, Some arr2, s2) \<and>
           holds s2 arr2 xs"
proof -
  define ys where "ys = take index xs @ v # drop index xs"
  from array_insert_in_place[OF assms, of P v] obtain arr1 s1 where
    1: "array_insert P (Some arr) index v s = Inr (arr1, Some arr1, s1)" "holds s1 arr1 ys"
    by (auto simp: ys_def)
  have i: "index < length ys" and v: "ys ! index = v"
    and undo: "take index ys @ drop (Suc index) ys = xs"
    using assms(3) by (simp_all add: ys_def nth_append)
  from array_remove_holds[OF 1(2) i] v undo obtain arr2 s2 where
    "array_remove (Some arr1) index s1 = Inr (v, Some arr2, s2)" "holds s2 arr2 xs"
    by auto
  with 1(1) show ?thesis by blast
qed

text \<open>
  Insert into a full array. The desktop build reallocates and stores: at the end of the
  array that appends the value, but at an index below the length it replaces the element
  there, and the array's new last cell is one that \<open>realloc\<close> added and nothing has
  written. The embedded build copies the two parts of the old buffer around the gap and
  inserts (for an allocator that returns an address not in use). Both for an array of
  fewer than \<open>2 ^ 57\<close> elements, so that twice the capacity and its byte count do not wrap.
\<close>

lemma insert_new_cap_above:
  assumes "c < 2 ^ 57"
  shows "c < insert_new_cap c" and "whole_cells (byte_count (insert_new_cap c)) = insert_new_cap c"
proof -
  have "c * 2 < 2 ^ 64" using assms by simp
  then have n: "insert_new_cap c = (if c = 0 then 4 else c * 2)"
    by (simp add: insert_new_cap_def)
  then show "c < insert_new_cap c" by simp
  have "insert_new_cap c \<le> 461168601842738790" using n assms by simp
  then show "whole_cells (byte_count (insert_new_cap c)) = insert_new_cap c"
    by (rule whole_cells_byte_count)
qed

lemma array_insert_grow_desktop:
  assumes H: "holds s arr xs" and full: "a_capacity arr \<le> a_size arr"
    and i: "index \<le> length xs" and D: "\<not> embedded P" and S: "length xs < 2 ^ 57"
    and run: "array_insert P (Some arr) index v s = Inr (r, arrp, s')" and ok: "a_error r = 0"
  shows "arrp = Some r \<and>
         holds s' r (if index = length xs then xs @ [v]
                     else xs[index := v] @ [junk P (length xs)])"
proof -
  note F = holds_full[OF H full]
  define n where "n = insert_new_cap (length xs)"
  have n: "length xs < n" and wc: "whole_cells (byte_count n) = n"
    using insert_new_cap_above[OF S] by (simp_all add: n_def)
  from run F i D ok obtain q h1 where
    re: "realloc_cells P (heap s) (a_data arr) n = Inr (Some q, h1)"
    and st: "store_and_count (arr\<lparr>a_data := Some q, a_capacity := n\<rparr>) index v
               (s\<lparr>heap := h1\<rparr>) = Inr (r, arrp, s')"
    by (auto simp: array_insert_def n_def Let_def return_arr_def
        split: sum.splits option.splits prod.splits)
  define cs where "cs = xs @ drop (length xs) (fresh_cells P n)"
  have h1: "h1 q = Some (Cells cs)"
    using realloc_cells_Inr[OF re wc] F n by (auto simp: cs_def split: option.splits)
  have l: "length cs = n" using n by (simp add: cs_def)
  from store_and_count_Inr[OF st] h1 have
    r: "r = arr\<lparr>a_data := Some q, a_capacity := n, a_size := a_size arr + 1\<rparr>" "arrp = Some r"
    and s': "s' = s\<lparr>heap := h1(q := Some (Cells (cs[index := v])))\<rparr>"
    by auto
  have last: "drop (length xs) (fresh_cells P n) ! 0 = junk P (length xs)"
    using n by (simp add: fresh_cells_def)
  have "take (Suc (length xs)) (cs[index := v]) =
        (if index = length xs then xs @ [v] else xs[index := v] @ [junk P (length xs)])"
  proof (cases "index = length xs")
    case True
    then show ?thesis using n by (simp add: cs_def list_update_append take_Suc_conv_app_nth)
  next
    case False
    with i have "index < length xs" by simp
    then have "cs[index := v] = xs[index := v] @ drop (length xs) (fresh_cells P n)"
      by (simp add: cs_def list_update_append)
    moreover have "take 1 (drop (length xs) (fresh_cells P n)) = [junk P (length xs)]"
      using n last by (simp add: take_Suc_conv_app_nth)
    ultimately show ?thesis using False by simp
  qed
  then show ?thesis
    using r s' F l n by (auto simp: holds_def)
qed

lemma array_insert_grow_embedded:
  assumes H: "holds s arr xs" and full: "a_capacity arr \<le> a_size arr"
    and i: "index \<le> length xs" and E: "embedded P" and S: "length xs < 2 ^ 57"
    and q: "malloc P (heap s) (byte_count (insert_new_cap (length xs))) = Some q"
      "heap s q = None"
  shows "\<exists>arr' s'. array_insert P (Some arr) index v s = Inr (arr', Some arr', s') \<and>
           holds s' arr' (take index xs @ v # drop index xs)"
proof -
  note F = holds_full[OF H full]
  define n where "n = insert_new_cap (length xs)"
  have n: "length xs < n" and wc: "whole_cells (byte_count n) = n"
    using insert_new_cap_above[OF S] by (simp_all add: n_def)
  define fr where "fr = fresh_cells P n"
  have lfr: "length fr = n" by (simp add: fr_def)
  define h0 where "h0 = (heap s)(q := Some (Cells fr))"
  have ma: "malloc_cells P (heap s) n = (Some q, h0)"
    using q wc by (simp add: malloc_cells_def h0_def n_def fr_def)
  have neq: "a_data arr \<noteq> Some q"
    using F q(2) by (auto split: option.splits)
  have src: "load_cells h (a_data arr) = Inr xs" if "xs \<noteq> []" "h = (heap s)(q := x)" for h x
    using F neq that by (cases "a_data arr") (auto simp: load_cells_def)
  define c1 where "c1 = take index xs @ drop index fr"
  define h1 where "h1 = (heap s)(q := Some (Cells c1))"
  have m1: "memcpy_cells h0 (Some q) 0 (a_data arr) 0 index = Inr h1"
  proof (cases "index = 0")
    case True
    then show ?thesis by (simp add: memcpy_cells_def h1_def h0_def c1_def)
  next
    case False
    with i have "xs \<noteq> []" by auto
    from src[OF this, of h0] False i n lfr show ?thesis
      by (simp add: memcpy_cells_def h0_def h1_def c1_def load_cells_def store_cells_def)
  qed
  define c2 where "c2 = take (Suc index) c1 @ drop index xs @ drop (Suc (length xs)) c1"
  define h2 where "h2 = (heap s)(q := Some (Cells c2))"
  have lc1: "length c1 = n" using i n lfr by (simp add: c1_def)
  have m2: "memcpy_cells h1 (Some q) (index + 1) (a_data arr) index (a_size arr - index) = Inr h2"
  proof (cases "length xs - index = 0")
    case True
    with i have "index = length xs" by simp
    then have "c2 = c1" using lc1 n by (simp add: c2_def)
    with True F show ?thesis by (simp add: memcpy_cells_def h1_def h2_def)
  next
    case False
    then have "xs \<noteq> []" by auto
    from src[OF this, of h1] False i n lc1 F show ?thesis
      by (simp add: memcpy_cells_def h1_def h2_def c2_def load_cells_def store_cells_def)
  qed
  define h3 where "h3 = (case a_data arr of None \<Rightarrow> h2 | Some b \<Rightarrow> h2(b := None))"
  have f: "c_free h2 (a_data arr) = Inr h3"
    using F neq by (cases "a_data arr") (auto simp: c_free_def h3_def h2_def)
  have h3q: "h3 q = Some (Cells c2)"
    using neq by (cases "a_data arr") (auto simp: h3_def h2_def)
  have lc2: "length c2 = n" using i n lc1 by (simp add: c2_def)
  define arr' where "arr' = arr\<lparr>a_data := Some q, a_capacity := n, a_size := a_size arr + 1\<rparr>"
  define s' where "s' = s\<lparr>heap := h3(q := Some (Cells (c2[index := v])))\<rparr>"
  have st: "store_and_count (arr\<lparr>a_data := Some q, a_capacity := n\<rparr>) index v (s\<lparr>heap := h3\<rparr>)
              = Inr (arr', Some arr', s')"
    using h3q lc2 i n
    by (subst store_and_count_succeeds[where p = q and cs = c2]) (simp_all add: arr'_def s'_def)
  have run: "array_insert P (Some arr) index v s = Inr (arr', Some arr', s')"
    using F i E ma m1 m2 f st
    by (simp add: array_insert_def n_def[symmetric])
  have "take (Suc (length xs)) (c2[index := v]) = take index xs @ v # drop index xs"
  proof -
    have "take (Suc index) c1 = take index xs @ [fr ! index]"
      using i n lfr by (simp add: c1_def take_Suc_conv_app_nth nth_append)
    then have "c2[index := v] = (take index xs @ v # drop index xs) @ drop (Suc (length xs)) c1"
      using i by (simp add: c2_def list_update_append)
    moreover have "length (take index xs @ v # drop index xs) = Suc (length xs)"
      using i by simp
    ultimately show ?thesis by (metis append_eq_conv_conj)
  qed
  then have "holds s' arr' (take index xs @ v # drop index xs)"
    using F lc2 n i by (simp add: holds_def arr'_def s'_def)
  with run show ?thesis by blast
qed

lemmas insert_defs = array_insert_def insert_new_cap_def array_remove_def array_get_def
  elements_def four_full_def four_state_def memcpy_cells_def c_free_def
  shift_right.simps shift_left.simps

text \<open>
  Claim C2, at a failing input. On the desktop build \<open>array_insert\<close> grows a full buffer
  with \<open>realloc\<close> and then stores the value at \<open>index\<close> without moving the elements from
  \<open>index\<close> on: inserting 99 at index 0 of the full array [10, 20, 30, 40] (which four
  appends build) gives [99, 20, 30, 40] followed by an indeterminate cell, where the claim
  has [99, 10, 20, 30, 40]. The embedded build, which copies the two parts around
  \<open>index\<close> into the new buffer, gives that.
\<close>

theorem insert_growth_overwrites:
  "append_all desktop (map int_value [10, 20, 30, 40])
     (fst (array desktop unset_array 0 initial_state)) initial_state = Inr (four_full, four_state) \<and>
   (\<exists>arr' s'. array_insert desktop (Some four_full) 0 (int_value 99) four_state =
        Inr (arr', Some arr', s') \<and>
      a_error arr' = 0 \<and> a_size arr' = 5 \<and> a_capacity arr' = 8 \<and>
      elements arr' s' = map Inr (map int_value [99, 20, 30, 40, - 1])) \<and>
   (\<exists>arr' s'. array_insert (desktop\<lparr>embedded := True\<rparr>) (Some four_full) 0 (int_value 99)
        four_state = Inr (arr', Some arr', s') \<and>
      a_error arr' = 0 \<and> a_size arr' = 5 \<and> a_capacity arr' = 8 \<and>
      elements arr' s' = map Inr (map int_value [99, 10, 20, 30, 40]))"
  by (simp add: eval_defs insert_defs upt_rec)

text \<open>
  Claim C3, at a failing input. After the same insert into the full array,
  \<open>array_remove\<close> at index 0 does return the value inserted, but the array it leaves is
  [20, 30, 40] followed by the indeterminate cell, not the [10, 20, 30, 40] from before
  the insert.
\<close>

theorem insert_remove_loses_element:
  "\<exists>arr1 s1 arr2 s2.
     array_insert desktop (Some four_full) 0 (int_value 99) four_state =
       Inr (arr1, Some arr1, s1) \<and>
     array_remove (Some arr1) 0 s1 = Inr (int_value 99, Some arr2, s2) \<and>
     elements arr2 s2 = map Inr (map int_value [20, 30, 40, - 1]) \<and>
     elements four_full four_state = map Inr (map int_value [10, 20, 30, 40])"
  by (simp add: eval_defs insert_defs upt_rec)

section \<open>Properties of the formatters\<close>

lemmas text_defs = digit_def show_int_def error_text_def newline_def read_chars_def
  member_i_def member_f_def member_s_def member_a_def text_d_def text_f_def text_s_def
  element_text_def print_value_def print_elements.simps

lemmas format_defs = string_format_def isdigit_def digit_value_def LONG_MAX_def strtol_def
  snprintf_rest_def put_char_def snprintf_error_def format_value_def arg_value_def
  init_arg_values_def c_free_def set_error_def format_elements.simps
  free_dynamic_array.simps free_elements.simps

lemmas platform_defs = desktop_def first_fit_def initial_state_def int_value_def
  malloc_cells_def fresh_cells_def sizeof_DynamicValue_def to_int_def to_size_t_def
  byte_count_def whole_cells_def
  load_cell_def load_cells_def store_cell_def store_cells_def

text \<open>Unfolding \<open>free_dynamic_value\<close> at a stack depth written as a numeral.\<close>

lemma free_dynamic_value_numeral:
  "free_dynamic_value (numeral k) val h =
     (case v_type val of
        EASS_STRING \<Rightarrow>
          (case v_value val of
             V_s pa \<Rightarrow>
               (case c_free h pa of
                  Inl e \<Rightarrow> Inl e
                | Inr h' \<Rightarrow> Inr (val\<lparr>v_type := EASS_NULL\<rparr>, h'))
           | V_i _ \<Rightarrow> Inl Inactive_Union_Member
           | V_f _ \<Rightarrow> Inl Inactive_Union_Member
           | V_a _ \<Rightarrow> Inl Inactive_Union_Member)
      | EASS_ARRAY \<Rightarrow>
          (case v_value val of
             V_a arr \<Rightarrow>
               (case free_dynamic_array (pred_numeral k) arr h of
                  Inl e \<Rightarrow> Inl e
                | Inr (arr', h') \<Rightarrow> Inr (val\<lparr>v_type := EASS_NULL, v_value := V_a arr'\<rparr>, h'))
           | V_i _ \<Rightarrow> Inl Inactive_Union_Member
           | V_f _ \<Rightarrow> Inl Inactive_Union_Member
           | V_s _ \<Rightarrow> Inl Inactive_Union_Member)
      | EASS_INT \<Rightarrow> Inr (val\<lparr>v_type := EASS_NULL\<rparr>, h)
      | EASS_FLOAT \<Rightarrow> Inr (val\<lparr>v_type := EASS_NULL\<rparr>, h)
      | EASS_NULL \<Rightarrow> Inr (val\<lparr>v_type := EASS_NULL\<rparr>, h))"
  by (simp only: numeral_eq_Suc free_dynamic_value.simps)

text \<open>
  Claim C4, at its own input. The first pass of \<open>string_format\<close> sets \<open>arg_count\<close> to the
  largest index it meets, here 1, so \<open>arg_values\<close> has one slot; the second pass stores
  arguments into \<open>arg_values\<close> only at a \<open>{}\<close>. At \<open>{1}\<close> it reads \<open>arg_values[1]\<close>,
  outside the block: the call has no defined result, and in no case the string
  \<open>20 then 10\<close>.
\<close>

theorem explicit_index_reads_outside:
  "string_format desktop ''{1} then {0}'' [int_value 10, int_value 20] initial_state
     = Inl Out_Of_Bounds"
  by (simp add: format_defs text_defs platform_defs free_dynamic_value_numeral)

text \<open>
  Claim C8, at three failing inputs. A brace followed by a digit is always taken as a
  placeholder and always moves the template three characters on. So \<open>{0x\<close>, which no
  \<open>}\<close> ends, is replaced by argument 0 and the \<open>x\<close> is lost, where the claim copies
  \<open>{0x\<close> through; of \<open>{10}\<close> only \<open>{10\<close> is consumed, so a stray \<open>}\<close> follows argument
  10; and after \<open>{0\<close> at the end of the template the scan continues past the
  terminator. (The last argument of each call is the one the first pass takes for the
  brace with a digit.)
\<close>

theorem brace_digit_is_a_placeholder:
  "(\<exists>s. string_format desktop ''{}{0x'' [int_value 7, int_value 0] initial_state = Inr (Some 1, s) \<and>
        heap s 1 = Some (Chars ''77'')) \<and>
   (\<exists>s. string_format desktop ''{}{}{}{}{}{}{}{}{}{}{}{10}''
          (map int_value [0, 1, 2, 3, 4, 5, 6, 7, 8, 9, 10, 0]) initial_state = Inr (Some 1, s) \<and>
        heap s 1 = Some (Chars ''01234567891010}'')) \<and>
   string_format desktop ''{}{0'' [int_value 7, int_value 0] initial_state = Inl Out_Of_Bounds"
  by (simp add: format_defs text_defs platform_defs free_dynamic_value_numeral upt_rec)

text \<open>
  What \<open>print\<close> writes ends with the newline, unless it met a failed argument: then it
  ends with the error description.
\<close>

lemma print_output:
  "print P format args s = Inr s' \<Longrightarrow>
   eass_last_error s' = eass_last_error s \<and>
   (\<exists>t. stdout s' = stdout s @ t @
          (if stops format args then error_text (eass_last_error s) else [newline]))"
proof (induction P format args s rule: print.induct)
  case (1 P args s)
  then show ?case by auto
next
  case (2 P c args s)
  then show ?case by auto
next
  case (3 P c c' format args s)
  show ?case
  proof (cases "c = CHR ''{'' \<and> c' = CHR ''}''")
    case False
    with "3.prems" have "print P (c' # format) args (s\<lparr>stdout := stdout s @ [c]\<rparr>) = Inr s'"
      by auto
    from "3.IH"(2)[OF False this] False show ?thesis by auto
  next
    case True
    show ?thesis
    proof (cases args)
      case Nil
      with True "3.prems" show ?thesis by simp
    next
      case (Cons val args')
      show ?thesis
      proof (cases "v_error val \<noteq> 0")
        case err: True
        with True Cons "3.prems" show ?thesis by auto
      next
        case ok: False
        with True Cons "3.prems" obtain t val' h1 where
          pv: "print_value P (heap s) val = Inr t"
          and fv: "free_dynamic_value (stack_depth P) val (heap s) = Inr (val', h1)"
          and rest: "print P format args' (s\<lparr>stdout := stdout s @ t, heap := h1\<rparr>) = Inr s'"
          by (auto split: sum.splits)
        from "3.IH"(1)[OF True Cons ok pv fv refl rest] True Cons ok show ?thesis
          by auto
      qed
    qed
  qed
qed

text \<open>
  Claim C9, at a failing input. The argument is the failed value that \<open>array_get\<close>
  returns for an index outside the array. \<open>print\<close> writes the error description and
  returns from inside its loop: the rest of the template is not written, and neither is
  the newline.
\<close>

theorem print_stops_without_newline:
  "\<exists>v s1 s2. array_get (Some four_full) 4 four_state = Inr (v, s1) \<and> v_error v = 1 \<and>
      print desktop ''item: {} (last)'' [v] s1 = Inr s2 \<and>
      stdout s2 = ''item: Error: 22 - Index out of bounds in array_get''"
  by (simp add: array_get_def four_full_def four_state_def invalid_value_def EINVAL_def
      text_defs platform_defs set_error_def free_dynamic_value_numeral)

text \<open>
  Claim C5, at a failing input: the call \<open>numlit(10)\<close>, whose argument has type \<open>int\<close>.
  The function converts it to its \<open>double\<close> parameter and selects on that, so the value
  is not failed and has kind \<open>EASS_FLOAT\<close>, where the claim, like the usage example in
  the header (\<open>numlit(10)\<close> is an int), has \<open>EASS_INT\<close>.
\<close>

theorem numlit_of_int_is_float:
  "v_type (numlit C (Of_int 10)) = EASS_FLOAT \<and> v_error (numlit C (Of_int 10)) = 0"
  by (simp add: numlit_def numlit_selection_def type_of_def as_float_def)

section \<open>Properties of releasing and printing\<close>

text \<open>
  Ownership seen from a later heap: when blocks outside \<open>B\<close> were only freed, a block the
  value owned is still owned, unless on the way to it there is a freed block or one of
  \<open>B\<close>.
\<close>

lemma owns_through:
  assumes "owns h v p" and "frame B h h2"
  shows "owns h2 v p \<or> (\<exists>q. owns h2 v q \<and> (h2 q = None \<or> q \<in> B))"
  using assms
proof (induction rule: owns.induct)
  case (chars v p)
  then show ?case by (auto intro: owns.chars)
next
  case (buffer v a p)
  then show ?case by (auto intro: owns.buffer)
next
  case (element v a b cs i p)
  have b: "owns h2 v b" using element.hyps by (auto intro: owns.buffer)
  show ?case
  proof (cases "b \<in> B \<or> h2 b = None")
    case True
    with b show ?thesis by blast
  next
    case False
    with element.prems have "h2 b = Some (Cells cs)"
      using element.hyps(4) by (auto simp: frame_def)
    with element show ?thesis by (meson owns.element)
  qed
qed

lemma load_cell_Inr:
  "load_cell h pa i = Inr v \<Longrightarrow>
   \<exists>b cs. pa = Some b \<and> h b = Some (Cells cs) \<and> i < length cs \<and> v = cs ! i"
  by (auto simp: load_cell_def load_cells_def split: option.splits block.splits if_splits)

text \<open>
  What a release that returns has done: every block the value owned was allocated and is
  freed, and every other block is as it was or freed. The loop over the elements of a
  buffer \<open>b\<close> does so for the elements from \<open>i\<close> on, and writes only into \<open>b\<close>.
\<close>

lemma release_effect:
  "(\<forall>val' h'. free_dynamic_value d val h = Inr (val', h') \<longrightarrow>
      frame {} h h' \<and> (\<forall>p. owns h val p \<longrightarrow> h p \<noteq> None \<and> h' p = None))"
  "(\<forall>arr' h'. free_dynamic_array d1 arr h1 = Inr (arr', h') \<longrightarrow>
      frame {} h1 h' \<and>
      (\<forall>v p. v_type v = EASS_ARRAY \<longrightarrow> v_value v = V_a arr \<longrightarrow> owns h1 v p \<longrightarrow>
             h1 p \<noteq> None \<and> h' p = None))"
  "(\<forall>h'. free_elements d2 pa n i h2 = Inr h' \<longrightarrow>
      (n \<le> i \<longrightarrow> h' = h2) \<and>
      (i < n \<longrightarrow> (\<exists>b cs. pa = Some b \<and> h2 b = Some (Cells cs))) \<and>
      (\<forall>b. pa = Some b \<longrightarrow> frame {b} h2 h') \<and>
      (\<forall>b cs j p. pa = Some b \<longrightarrow> h2 b = Some (Cells cs) \<longrightarrow> i \<le> j \<longrightarrow> j < n \<longrightarrow>
          j < length cs \<longrightarrow> owns h2 (cs ! j) p \<longrightarrow> h2 p \<noteq> None \<and> h' p = None \<and> p \<noteq> b))"
proof (induction d val h and d1 arr h1 and d2 pa n i h2
    rule: free_dynamic_value_free_dynamic_array_free_elements.induct)
  case (1 val h)
  show ?case by simp
next
  case (2 d val h)
  show ?case
  proof (intro allI impI)
    fix val' h'
    assume eq: "free_dynamic_value (Suc d) val h = Inr (val', h')"
    show "frame {} h h' \<and> (\<forall>p. owns h val p \<longrightarrow> h p \<noteq> None \<and> h' p = None)"
    proof (cases "v_type val")
      case EASS_STRING
      with eq obtain pa where pa: "v_value val = V_s pa" "c_free h pa = Inr h'"
        by (auto split: payload.splits sum.splits)
      from c_free_Inr[OF pa(2)] have fr: "frame {} h h'"
        by (auto simp: frame_def split: option.splits)
      have "h p \<noteq> None \<and> h' p = None" if "owns h val p" for p
        using that EASS_STRING pa c_free_Inr[OF pa(2)]
        by (cases rule: owns.cases) auto
      with fr show ?thesis by blast
    next
      case EASS_ARRAY
      with eq obtain arr arr' where a: "v_value val = V_a arr"
        "free_dynamic_array d arr h = Inr (arr', h')"
        by (auto split: payload.splits sum.splits)
      from "2.IH"[OF EASS_ARRAY a(1)] a(2) EASS_ARRAY a(1) show ?thesis by blast
    next
      case EASS_INT
      with eq have "h' = h" by auto
      moreover have "\<not> owns h val p" for p
        using EASS_INT by (auto elim: owns.cases)
      ultimately show ?thesis by (simp add: frame_def)
    next
      case EASS_FLOAT
      with eq have "h' = h" by auto
      moreover have "\<not> owns h val p" for p
        using EASS_FLOAT by (auto elim: owns.cases)
      ultimately show ?thesis by (simp add: frame_def)
    next
      case EASS_NULL
      with eq have "h' = h" by auto
      moreover have "\<not> owns h val p" for p
        using EASS_NULL by (auto elim: owns.cases)
      ultimately show ?thesis by (simp add: frame_def)
    qed
  qed
next
  case (3 d arr h)
  show ?case
  proof (intro allI impI)
    fix arr' h'
    assume eq: "free_dynamic_array d arr h = Inr (arr', h')"
    then obtain hm where lp: "free_elements d (a_data arr) (a_size arr) 0 h = Inr hm"
      and fr: "c_free hm (a_data arr) = Inr h'"
      by (auto simp: free_dynamic_array.simps split: sum.splits)
    note IH = "3.IH"[rule_format, OF lp]
    note IH1 = IH[THEN conjunct1, rule_format]
    note IH2 = IH[THEN conjunct2, THEN conjunct1, rule_format]
    note IH3 = IH[THEN conjunct2, THEN conjunct2, THEN conjunct1, rule_format]
    note IH4 = IH[THEN conjunct2, THEN conjunct2, THEN conjunct2, rule_format]
    note F = c_free_Inr[OF fr]
    have frm: "frame {} h h'"
    proof (cases "a_data arr")
      case None
      have "hm = h"
      proof (cases "a_size arr \<le> 0")
        case True
        then show ?thesis by (rule IH1)
      next
        case False
        then have "0 < a_size arr" by simp
        from IH2[OF this] None show ?thesis by simp
      qed
      with F None show ?thesis by (simp add: frame_def)
    next
      case (Some b)
      then have "frame {b} h hm" by (rule IH3)
      with F Some show ?thesis by (auto simp: frame_def)
    qed
    have "h p \<noteq> None \<and> h' p = None"
      if v: "v_type v = EASS_ARRAY" "v_value v = V_a arr" and o: "owns h v p" for v p
      using o
    proof (cases rule: owns.cases)
      case (chars)
      with v show ?thesis by simp
    next
      case (buffer a)
      with v have b: "a_data arr = Some p" by simp
      have "h p \<noteq> None"
      proof (cases "a_size arr \<le> 0")
        case True
        then have "hm = h" by (rule IH1)
        with F b show ?thesis by simp
      next
        case False
        then have "0 < a_size arr" by simp
        from IH2[OF this] obtain b' cs' where "a_data arr = Some b'" "h b' = Some (Cells cs')"
          by blast
        with b show ?thesis by simp
      qed
      moreover have "h' = hm(p := None)" using F b by simp
      ultimately show ?thesis by simp
    next
      case (element a b cs i)
      with v have e: "a_data arr = Some b" "h b = Some (Cells cs)" "i < a_size arr"
        "i < length cs" "owns h (cs ! i) p" by simp_all
      have "h p \<noteq> None \<and> hm p = None \<and> p \<noteq> b"
        by (rule IH4[OF e(1,2) le0 e(3,4,5)])
      moreover have "h' = hm(b := None)" using F e(1) by simp
      ultimately show ?thesis by simp
    qed
    with frm show "frame {} h h' \<and>
      (\<forall>v p. v_type v = EASS_ARRAY \<longrightarrow> v_value v = V_a arr \<longrightarrow> owns h v p \<longrightarrow>
             h p \<noteq> None \<and> h' p = None)" by blast
  qed
next
  case (4 d pa n i h)
  show ?case
  proof (intro allI impI)
    fix h'
    assume eq: "free_elements d pa n i h = Inr h'"
    show "(n \<le> i \<longrightarrow> h' = h) \<and>
      (i < n \<longrightarrow> (\<exists>b cs. pa = Some b \<and> h b = Some (Cells cs))) \<and>
      (\<forall>b. pa = Some b \<longrightarrow> frame {b} h h') \<and>
      (\<forall>b cs j p. pa = Some b \<longrightarrow> h b = Some (Cells cs) \<longrightarrow> i \<le> j \<longrightarrow> j < n \<longrightarrow>
          j < length cs \<longrightarrow> owns h (cs ! j) p \<longrightarrow> h p \<noteq> None \<and> h' p = None \<and> p \<noteq> b)"
    proof (cases "i < n")
      case False
      with eq have "h' = h" by (simp add: free_elements.simps)
      with False show ?thesis by (simp add: frame_def)
    next
      case True
      with eq obtain val val' hv hs where
        ld: "load_cell h pa i = Inr val"
        and fv: "free_dynamic_value d val h = Inr (val', hv)"
        and st: "store_cell hv pa i val' = Inr hs"
        and rest: "free_elements d pa n (i + 1) hs = Inr h'"
        by (auto simp: free_elements.simps[of d pa n i h] split: sum.splits)
      from load_cell_Inr[OF ld] obtain b cs where
        b: "pa = Some b" "h b = Some (Cells cs)" "i < length cs" "val = cs ! i"
        by blast
      from "4.IH"(1)[OF True ld] fv have
        fr1: "frame {} h hv" and own1: "\<And>p. owns h val p \<Longrightarrow> h p \<noteq> None \<and> hv p = None"
        by blast+
      from store_cell_Inr[OF st] b(1) obtain cs1 where
        s1: "hv b = Some (Cells cs1)" "hs = hv(b := Some (Cells (cs1[i := val'])))"
        by auto
      have "hv b = None \<or> hv b = h b" using fr1 by (simp add: frame_def)
      with s1(1) b(2) have cs1: "cs1 = cs" by simp
      have hs_other: "hs q = hv q" if "q \<noteq> b" for q using s1(2) that by simp
      have hsb: "hs b = Some (Cells (cs[i := val']))" using s1 cs1 by simp
      have fr2: "frame {b} h hs"
        using fr1 hs_other by (auto simp: frame_def)
      note IH = "4.IH"(2)[OF True ld fv refl st, rule_format, OF rest]
      note IH3 = IH[THEN conjunct2, THEN conjunct2, THEN conjunct1, rule_format]
      note IH4 = IH[THEN conjunct2, THEN conjunct2, THEN conjunct2, rule_format]
      from b(1) have fr3: "frame {b} hs h'" by (rule IH3)
      have frame: "frame {b} h h'"
        unfolding frame_def
      proof
        fix q
        show "q \<in> {b} \<or> h' q = None \<or> h' q = h q"
          using fr2 fr3 unfolding frame_def by (metis)
      qed
      have later: "hs p \<noteq> None \<and> h' p = None \<and> p \<noteq> b"
        if "i + 1 \<le> j" "j < n" "j < length cs" "owns hs (cs ! j) p" for j p
      proof -
        have "(cs[i := val']) ! j = cs ! j" using that(1) by simp
        moreover have "j < length (cs[i := val'])" using that(3) by simp
        ultimately show ?thesis
          using IH4[OF b(1) hsb that(1,2), of p] that(4) by simp
      qed
      have owned: "h p \<noteq> None \<and> h' p = None \<and> p \<noteq> b"
        if j: "i \<le> j" "j < n" "j < length cs" and o: "owns h (cs ! j) p" for j p
      proof (cases "j = i")
        case True
        with o b(4) own1 have 1: "h p \<noteq> None" "hv p = None" by auto
        with s1(1) have nb: "p \<noteq> b" by auto
        with 1 hs_other have "hs p = None" by simp
        with fr3 nb have "h' p = None" by (auto simp: frame_def)
        with 1 nb show ?thesis by simp
      next
        case False
        with j have j': "i + 1 \<le> j" by simp
        have "owns hs (cs ! j) p"
        proof (rule disjE[OF owns_through[OF o fr2]])
          assume "\<exists>q. owns hs (cs ! j) q \<and> (hs q = None \<or> q \<in> {b})"
          then obtain q where q: "owns hs (cs ! j) q" "hs q = None \<or> q = b" by auto
          from later[OF j' j(2,3) q(1)] q(2) show ?thesis by simp
        qed
        from later[OF j' j(2,3) this] have 2: "hs p \<noteq> None" "h' p = None" "p \<noteq> b"
          by simp_all
        with fr2 have "h p \<noteq> None" by (auto simp: frame_def)
        with 2 show ?thesis by simp
      qed
      show ?thesis
        using True b frame owned by auto
    qed
  qed
qed

lemma frame_trans: "frame {} h h1 \<Longrightarrow> frame {} h1 h2 \<Longrightarrow> frame {} h h2"
  unfolding frame_def by (metis empty_iff)

lemma free_dynamic_value_releases:
  assumes "free_dynamic_value d val h = Inr (val', h')"
  shows "frame {} h h'" and "owns h val p \<Longrightarrow> h p \<noteq> None \<and> h' p = None"
  using release_effect(1)[of d val h] assms by blast+

lemma print_releases:
  "print P format args s = Inr s' \<Longrightarrow>
   frame {} (heap s) (heap s') \<and>
   (\<forall>k p. k < rendered format args \<longrightarrow> owns (heap s) (args ! k) p \<longrightarrow>
          heap s p \<noteq> None \<and> heap s' p = None)"
proof (induction P format args s rule: print.induct)
  case (1 P args s)
  then show ?case by (auto simp: frame_def)
next
  case (2 P c args s)
  then show ?case by (auto simp: frame_def)
next
  case (3 P c c' format args s)
  show ?case
  proof (cases "c = CHR ''{'' \<and> c' = CHR ''}''")
    case False
    with "3.prems" have "print P (c' # format) args (s\<lparr>stdout := stdout s @ [c]\<rparr>) = Inr s'"
      by auto
    from "3.IH"(2)[OF False this] False show ?thesis by auto
  next
    case True
    show ?thesis
    proof (cases args)
      case Nil
      with True "3.prems" show ?thesis by simp
    next
      case (Cons val args')
      show ?thesis
      proof (cases "v_error val \<noteq> 0")
        case err: True
        with True Cons "3.prems" have "heap s' = heap s" by auto
        with True Cons err show ?thesis by (simp add: frame_def)
      next
        case ok: False
        with True Cons "3.prems" obtain t val' h1 where
          pv: "print_value P (heap s) val = Inr t"
          and fv: "free_dynamic_value (stack_depth P) val (heap s) = Inr (val', h1)"
          and rest: "print P format args' (s\<lparr>stdout := stdout s @ t, heap := h1\<rparr>) = Inr s'"
          by (auto split: sum.splits)
        note F = free_dynamic_value_releases[OF fv]
        from "3.IH"(1)[OF True Cons ok pv fv refl rest]
        have fr2: "frame {} h1 (heap s')"
          and IH: "\<And>k p. k < rendered format args' \<Longrightarrow> owns h1 (args' ! k) p \<Longrightarrow>
                     h1 p \<noteq> None \<and> heap s' p = None"
          by simp_all
        have fr: "frame {} (heap s) (heap s')"
          using frame_trans[OF F(1) fr2] .
        have "heap s p \<noteq> None \<and> heap s' p = None"
          if k: "k < rendered (c # c' # format) args" and o: "owns (heap s) (args ! k) p" for k p
        proof (cases k)
          case 0
          with o Cons have "owns (heap s) val p" by simp
          from F(2)[OF this] fr2 show ?thesis by (auto simp: frame_def)
        next
          case (Suc k')
          with k True Cons ok have k': "k' < rendered format args'" by simp
          from o Suc Cons have o': "owns (heap s) (args' ! k') p" by simp
          have "owns h1 (args' ! k') p"
          proof (rule disjE[OF owns_through[OF o' F(1)]])
            assume "\<exists>q. owns h1 (args' ! k') q \<and> (h1 q = None \<or> q \<in> {})"
            then obtain q where q: "owns h1 (args' ! k') q" "h1 q = None" by auto
            from IH[OF k' q(1)] q(2) show ?thesis by simp
          qed
          from IH[OF k' this] have 1: "h1 p \<noteq> None" "heap s' p = None" by simp_all
          have "h1 p = None \<or> h1 p = heap s p" using F(1) by (simp add: frame_def)
          with 1 show ?thesis by auto
        qed
        with fr show ?thesis by blast
      qed
    qed
  qed
qed

text \<open>
  Printing the shallow copy that \<open>array_get\<close> returned for a string element: the text is
  written and its block freed, while the array still holds the element with the same
  pointer.
\<close>

lemma print_shallow_copy:
  assumes g: "array_get (Some arr) i s = Inr (v, s)"
    and v: "v_error v = 0" "v_type v = EASS_STRING" "v_value v = V_s (Some p)"
    and live: "heap s p = Some (Chars str)" and d: "0 < stack_depth P"
  shows "\<exists>s'. print P ''{}'' [v] s = Inr s' \<and> stdout s' = stdout s @ str @ [newline] \<and>
           heap s' p = None \<and> array_get (Some arr) i s' = Inr (v, s')"
proof -
  from d obtain n where n: "stack_depth P = Suc n" by (cases "stack_depth P") auto
  define s' where "s' = s\<lparr>stdout := stdout s @ str @ [newline], heap := (heap s)(p := None)\<rparr>"
  have pr: "print P ''{}'' [v] s = Inr s'"
    using v live n
    by (simp add: print_value_def text_s_def member_s_def read_chars_def c_free_def s'_def)
  from g v(1) have e: "a_error arr = 0" "i < a_size arr"
    by (auto simp: array_get_def invalid_value_def set_error_def split: if_splits)
  with g have "load_cell (heap s) (a_data arr) i = Inr v"
    by (auto simp: array_get_def split: sum.splits)
  from load_cell_Inr[OF this] obtain b cs where
    b: "a_data arr = Some b" "heap s b = Some (Cells cs)" "i < length cs" "v = cs ! i"
    by blast
  with live have "b \<noteq> p" by auto
  with b e have "array_get (Some arr) i s' = Inr (v, s')"
    by (simp add: array_get_def load_cell_def load_cells_def s'_def)
  with pr show ?thesis by (auto simp: s'_def)
qed

subsection \<open>Releasing intact values\<close>

lemma cells_of_not_array [simp]: "v_type v \<noteq> EASS_ARRAY \<Longrightarrow> cells_of h v = []"
  by (cases "v_type v") (auto simp: cells_of_def)

lemma intact_cases:
  assumes "intact d h v"
  obtains (plain) "plain h v" "v_type v \<noteq> EASS_ARRAY" "cells_of h v = []"
  | (empty) a d' where "d = Suc d'" "v_type v = EASS_ARRAY" "v_value v = V_a a"
      "a_data a = None" "a_size a = 0" "own_block v = []" "cells_of h v = []"
  | (buffer) a d' b cs where "d = Suc d'" "v_type v = EASS_ARRAY" "v_value v = V_a a"
      "a_data a = Some b" "h b = Some (Cells cs)" "a_size a \<le> length cs"
      "own_block v = [b]" "cells_of h v = take (a_size a) cs"
      "list_all (intact d' h) (take (a_size a) cs)"
proof (cases "v_type v = EASS_ARRAY")
  case False
  with assms have "plain h v" by (cases d) auto
  with False show ?thesis by (intro plain) auto
next
  case True
  with assms obtain d' where d: "d = Suc d'" "buffer_ok h v" "list_all (intact d' h) (cells_of h v)"
    by (cases d) (auto simp: plain_def)
  from d(2) obtain a where a: "v_value v = V_a a"
    by (auto simp: buffer_ok_def split: payload.splits)
  show ?thesis
  proof (cases "a_data a")
    case None
    with d a True show ?thesis
      by (intro empty[of d' a]) (auto simp: buffer_ok_def own_block_def cells_of_def)
  next
    case (Some b)
    with d(2) a obtain cs where "h b = Some (Cells cs)" "a_size a \<le> length cs"
      by (auto simp: buffer_ok_def split: option.splits block.splits)
    with d a True Some show ?thesis
      by (intro buffer[of d' a b cs]) (auto simp: own_block_def cells_of_def)
  qed
qed

lemma plain_local:
  assumes "plain h v" and "\<forall>p \<in> set (own_block v). h' p = h p"
  shows "plain h' v"
  using assms
  by (auto simp: plain_def own_block_def split: EassType.splits payload.splits option.splits)

text \<open>Intactness and the blocks of a value depend on these blocks only.\<close>

lemma intact_local:
  "intact d h v \<Longrightarrow> \<forall>p \<in> set (blocks d h v). h' p = h p \<Longrightarrow>
   intact d h' v \<and> blocks d h' v = blocks d h v"
proof (induction d arbitrary: v)
  case 0
  then show ?case using plain_local[of h v h'] by simp
next
  case (Suc d)
  from Suc.prems(1) show ?case
  proof (cases rule: intact_cases)
    case plain
    with Suc.prems(2) plain_local[of h v h'] show ?thesis by simp
  next
    case (empty a d')
    then show ?thesis
      by (simp add: buffer_ok_def cells_of_def)
  next
    case (buffer a d' b cs)
    then have d': "d' = d" by simp
    from buffer Suc.prems(2) have hb: "h' b = Some (Cells cs)" by simp
    with buffer have c: "cells_of h' v = take (a_size a) cs" and bo: "buffer_ok h' v"
      by (simp_all add: cells_of_def buffer_ok_def)
    have each: "intact d h' x \<and> blocks d h' x = blocks d h x" if "x \<in> set (take (a_size a) cs)" for x
    proof (rule Suc.IH)
      show "intact d h x" using buffer(9) that d' by (simp add: list_all_iff)
      show "\<forall>p\<in>set (blocks d h x). h' p = h p"
        using Suc.prems(2) buffer(8) that by auto
    qed
    then have m: "map (blocks d h') (take (a_size a) cs) = map (blocks d h) (take (a_size a) cs)"
      by (intro map_cong) auto
    have "blocks (Suc d) h' v = blocks (Suc d) h v"
      by (simp only: blocks.simps c buffer(8) m)
    moreover have "intact (Suc d) h' v"
      using bo c each buffer(2) by (simp add: list_all_iff)
    ultimately show ?thesis by (rule conjI[rotated])
  qed
qed

lemma blocks_live: "intact d h v \<Longrightarrow> p \<in> set (blocks d h v) \<Longrightarrow> h p \<noteq> None"
proof (induction d arbitrary: v)
  case 0
  then show ?case
    by (auto simp: plain_def own_block_def split: EassType.splits payload.splits option.splits
        block.splits)
next
  case (Suc d)
  from Suc.prems(1) show ?case
  proof (cases rule: intact_cases)
    case plain
    with Suc.prems(2) show ?thesis
      by (auto simp: plain_def own_block_def split: EassType.splits payload.splits option.splits
          block.splits)
  next
    case (empty a d')
    with Suc.prems(2) show ?thesis by simp
  next
    case (buffer a d' b cs)
    with Suc.prems(2) Suc.IH show ?thesis
      by (auto simp: list_all_iff)
  qed
qed

lemma owns_blocks: "owns h v p \<Longrightarrow> intact d h v \<Longrightarrow> p \<in> set (blocks d h v)"
proof (induction arbitrary: d rule: owns.induct)
  case (chars v p)
  then show ?case by (cases d) (auto simp: own_block_def)
next
  case (buffer v a p)
  then show ?case by (cases d) (auto simp: own_block_def plain_def)
next
  case (element v a b cs i p)
  from element.prems show ?case
  proof (cases rule: intact_cases)
    case plain
    with element.hyps show ?thesis by simp
  next
    case (empty a' d')
    with element.hyps show ?thesis by simp
  next
    case (buffer a' d' b' cs')
    with element.hyps have eq: "a' = a" "b' = b" "cs' = cs" by simp_all
    have "cs ! i \<in> set (take (a_size a) cs)"
      using element.hyps(5,6) by (auto simp: in_set_conv_nth intro!: exI[of _ i])
    with buffer eq element.IH[of d'] show ?thesis
      by (auto simp: list_all_iff)
  qed
qed

lemma blocks_owns: "intact d h v \<Longrightarrow> p \<in> set (blocks d h v) \<Longrightarrow> owns h v p"
proof (induction d arbitrary: v p)
  case 0
  then show ?case
    by (auto simp: plain_def own_block_def split: EassType.splits payload.splits option.splits
        intro: owns.chars)
next
  case (Suc d)
  from Suc.prems(1) show ?case
  proof (cases rule: intact_cases)
    case plain
    with Suc.prems(2) show ?thesis
      by (auto simp: plain_def own_block_def split: EassType.splits payload.splits option.splits
        intro: owns.chars)
  next
    case (empty a d')
    with Suc.prems(2) show ?thesis by simp
  next
    case (buffer a d' b cs)
    show ?thesis
    proof (cases "p = b")
      case True
      with buffer show ?thesis by (auto intro: owns.buffer)
    next
      case False
      with Suc.prems(2) buffer obtain x where x: "x \<in> set (take (a_size a) cs)"
        "p \<in> set (blocks d h x)"
        by auto
      then obtain i where i: "i < a_size a" "i < length cs" "x = cs ! i"
        by (auto simp: in_set_conv_nth)
      from x buffer have "intact d h x" by (simp add: list_all_iff)
      from Suc.IH[OF this x(2)] i buffer show ?thesis
        by (auto intro: owns.element)
    qed
  qed
qed

lemma owns_iff_blocks: "intact d h v \<Longrightarrow> owns h v p \<longleftrightarrow> p \<in> set (blocks d h v)"
  using owns_blocks blocks_owns by blast


lemma restrict_one: "h(p := None) = restrict_map h (- {p})"
  by (auto simp: restrict_map_def fun_eq_iff)

lemma plain_release:
  assumes "plain h v"
  shows "free_dynamic_value (Suc D) v h =
           Inr (v\<lparr>v_type := EASS_NULL\<rparr>, restrict_map h (- set (own_block v)))"
proof (cases "v_type v")
  case EASS_STRING
  with assms obtain p c where "v_value v = V_s (Some p)" "h p = Some (Chars c)"
    by (auto simp: plain_def split: payload.splits option.splits block.splits)
  with EASS_STRING show ?thesis
    by (simp add: own_block_def c_free_def restrict_one)
next
  case EASS_ARRAY
  with assms show ?thesis by (simp add: plain_def)
qed (simp_all add: own_block_def restrict_map_def)

text \<open>
  The loop over the elements of the buffer \<open>b\<close>, from \<open>i\<close> on, when releasing an element
  (\<open>R\<close>) frees its blocks and nothing else.
\<close>

lemma release_elements:
  assumes R: "\<And>x g. intact d g x \<Longrightarrow> distinct (blocks d g x) \<Longrightarrow>
      \<exists>x'. free_dynamic_value D x g = Inr (x', restrict_map g (- set (blocks d g x)))"
  shows "h b = Some (Cells cs) \<Longrightarrow> n \<le> length cs \<Longrightarrow> i \<le> n \<Longrightarrow>
     list_all (intact d h) (drop i (take n cs)) \<Longrightarrow>
     distinct (b # concat (map (blocks d h) (drop i (take n cs)))) \<Longrightarrow>
     \<exists>cs'. free_elements D (Some b) n i h =
       Inr ((restrict_map h (- set (concat (map (blocks d h) (drop i (take n cs))))))
              (b := Some (Cells cs')))"
proof (induction "n - i" arbitrary: i h cs)
  case 0
  then have "i = n" by simp
  then have "free_elements D (Some b) n i h = Inr h"
    by (simp add: free_elements.simps)
  moreover have "(restrict_map h (- set (concat (map (blocks d h) (drop i (take n cs))))))
      (b := Some (Cells cs)) = h"
    using \<open>i = n\<close> 0(2) by (auto simp: fun_eq_iff)
  ultimately show ?case by metis
next
  case (Suc k)
  then have lt: "i < n" by simp
  define x where "x = cs ! i"
  define rest where "rest = drop (Suc i) (take n cs)"
  have split: "drop i (take n cs) = x # rest"
    using lt Suc.prems(2) by (simp add: x_def rest_def Cons_nth_drop_Suc[symmetric])
  from Suc.prems(4,5) split have
    ix: "intact d h x" and irest: "list_all (intact d h) rest"
    and dx: "distinct (blocks d h x)" and drest: "distinct (concat (map (blocks d h) rest))"
    and bx: "b \<notin> set (blocks d h x)" and brest: "b \<notin> set (concat (map (blocks d h) rest))"
    and disj: "set (blocks d h x) \<inter> set (concat (map (blocks d h) rest)) = {}"
    by auto
  from R[OF ix dx] obtain x' where
    fx: "free_dynamic_value D x h = Inr (x', restrict_map h (- set (blocks d h x)))"
    by blast
  define h2 where "h2 = restrict_map h (- set (blocks d h x))"
  define cs3 where "cs3 = cs[i := x']"
  define h3 where "h3 = h2(b := Some (Cells cs3))"
  have h2b: "h2 b = Some (Cells cs)"
    using bx Suc.prems(1) by (simp add: h2_def)
  have ld: "load_cell h (Some b) i = Inr x"
    using Suc.prems(1,2) lt by (simp add: load_cell_def load_cells_def x_def)
  have st: "store_cell h2 (Some b) i x' = Inr h3"
    using h2b Suc.prems(2) lt
    by (simp add: store_cell_def load_cells_def store_cells_def h3_def cs3_def)
  have step: "free_elements D (Some b) n i h = free_elements D (Some b) n (i + 1) h3"
    using lt ld fx st by (subst free_elements.simps) (simp add: h2_def)
  have rest3: "drop (Suc i) (take n cs3) = rest"
    by (simp add: cs3_def rest_def take_update_swap)
  have same: "h3 p = h p" if "p \<in> set (concat (map (blocks d h) rest))" for p
  proof -
    from that brest have "p \<noteq> b" by auto
    moreover from that disj have "p \<notin> set (blocks d h x)" by auto
    ultimately show ?thesis by (simp add: h3_def h2_def)
  qed
  have each: "intact d h3 y \<and> blocks d h3 y = blocks d h y" if "y \<in> set rest" for y
  proof (rule intact_local)
    show "intact d h y" using irest that by (simp add: list_all_iff)
    show "\<forall>p\<in>set (blocks d h y). h3 p = h p"
      using same that by auto
  qed
  then have "map (blocks d h3) rest = map (blocks d h) rest"
    by (intro map_cong) auto
  then have m: "concat (map (blocks d h3) rest) = concat (map (blocks d h) rest)"
    by (simp only:)
  have p1: "h3 b = Some (Cells cs3)" by (simp add: h3_def)
  have p2: "n \<le> length cs3" using Suc.prems(2) by (simp add: cs3_def)
  have p3: "i + 1 \<le> n" using lt by simp
  have p4: "list_all (intact d h3) (drop (i + 1) (take n cs3))"
    using each rest3 by (simp add: list_all_iff)
  have p5: "distinct (b # concat (map (blocks d h3) (drop (i + 1) (take n cs3))))"
    using drest brest by (simp add: rest3 m)
  have k: "k = n - (i + 1)" using Suc.hyps(2) by simp
  from Suc.hyps(1)[OF k p1 p2 p3 p4 p5] obtain cs' where
    r: "free_elements D (Some b) n (i + 1) h3 =
          Inr ((restrict_map h3 (- set (concat (map (blocks d h3) (drop (i + 1) (take n cs3))))))
                 (b := Some (Cells cs')))"
    by blast
  have eq: "(restrict_map h3 (- B))(b := X) =
      (restrict_map h (- (set (blocks d h x) \<union> B)))(b := X)" for B X
    by (auto simp: fun_eq_iff restrict_map_def h3_def h2_def)
  have "(restrict_map h3 (- set (concat (map (blocks d h3) (drop (i + 1) (take n cs3))))))
          (b := Some (Cells cs')) =
        (restrict_map h3 (- set (concat (map (blocks d h) rest))))(b := Some (Cells cs'))"
    by (simp add: rest3 m)
  also have "\<dots> = (restrict_map h (- (set (blocks d h x) \<union> set (concat (map (blocks d h) rest)))))
          (b := Some (Cells cs'))"
    by (rule eq)
  also have "\<dots> = (restrict_map h (- set (concat (map (blocks d h) (drop i (take n cs))))))
          (b := Some (Cells cs'))"
    by (simp add: split)
  finally show ?case using step r by metis
qed

text \<open>
  Releasing an intact value none of whose blocks is reached twice, with room on the stack
  for its nesting: the call returns, and has freed the blocks of the value and nothing
  else.
\<close>

lemma release_total:
  "intact d h v \<Longrightarrow> distinct (blocks d h v) \<Longrightarrow> d < D \<Longrightarrow>
   \<exists>v'. free_dynamic_value D v h = Inr (v', restrict_map h (- set (blocks d h v)))"
proof (induction d arbitrary: D v h)
  case 0
  then obtain D' where "D = Suc D'" by (cases D) auto
  with 0 plain_release[of h v D'] show ?case by simp
next
  case (Suc d)
  from Suc.prems(3) obtain D' where D: "D = Suc D'" "d < D'" by (cases D) auto
  from Suc.prems(1) show ?case
  proof (cases rule: intact_cases)
    case plain
    with plain_release[of h v D'] D show ?thesis by simp
  next
    case (empty a d')
    then show ?thesis
      by (simp add: D free_dynamic_array.simps free_elements.simps c_free_def)
  next
    case (buffer a d' b cs)
    then have d': "d' = d" by simp
    have R: "\<exists>x'. free_dynamic_value D' x g = Inr (x', restrict_map g (- set (blocks d g x)))"
      if "intact d g x" "distinct (blocks d g x)" for x g
      using Suc.IH[OF that D(2)] .
    have bl: "blocks (Suc d) h v = b # concat (map (blocks d h) (drop 0 (take (a_size a) cs)))"
      using buffer by simp
    have ia: "list_all (intact d h) (drop 0 (take (a_size a) cs))"
      using buffer(9) d' by simp
    have di: "distinct (b # concat (map (blocks d h) (drop 0 (take (a_size a) cs))))"
      using Suc.prems(2) by (simp only: bl)
    from release_elements[of d D' h b cs "a_size a" 0, OF R buffer(5,6) le0 ia di]
    obtain cs' where
      lp: "free_elements D' (Some b) (a_size a) 0 h =
            Inr ((restrict_map h (- set (concat (map (blocks d h) (drop 0 (take (a_size a) cs))))))
                   (b := Some (Cells cs')))"
      by blast
    have "((restrict_map h (- set (concat (map (blocks d h) (drop 0 (take (a_size a) cs))))))
             (b := Some (Cells cs')))(b := None) = restrict_map h (- set (blocks (Suc d) h v))"
      unfolding bl by (auto simp: fun_eq_iff restrict_map_def)
    with lp buffer show ?thesis
      by (simp add: D free_dynamic_array.simps c_free_def)
  qed
qed


text \<open>\<open>print\<close> can render an intact value.\<close>

lemma plain_text:
  assumes "plain h x"
  shows "\<exists>t. element_text P h x = Inr t" and "\<exists>t. print_value P h x = Inr t"
  using assms
  by (auto simp: plain_def element_text_def print_value_def text_d_def text_f_def text_s_def
      member_i_def member_f_def member_s_def read_chars_def
      split: EassType.splits payload.splits option.splits block.splits)

lemma element_text_total: "intact d h x \<Longrightarrow> \<exists>t. element_text P h x = Inr t"
proof (cases "v_type x = EASS_ARRAY")
  case True
  then show ?thesis by (simp add: element_text_def)
next
  case False
  assume "intact d h x"
  with False have "plain h x" by (cases d) auto
  then show ?thesis by (rule plain_text)
qed

lemma print_elements_total:
  assumes "a_data a = Some b" "h b = Some (Cells cs)" "a_size a \<le> length cs"
    and "list_all (intact d h) (take (a_size a) cs)"
  shows "\<exists>t. print_elements P h a i out = Inr t"
proof (induction "a_size a - i" arbitrary: i out)
  case 0
  then show ?case by (simp add: print_elements.simps)
next
  case (Suc k)
  then have lt: "i < a_size a" by simp
  with assms(3) have ld: "load_cell h (a_data a) i = Inr (cs ! i)"
    using assms(1,2) by (simp add: load_cell_def load_cells_def)
  have "cs ! i \<in> set (take (a_size a) cs)"
    using lt assms(3) by (auto simp: in_set_conv_nth intro!: exI[of _ i])
  with assms(4) have "intact d h (cs ! i)" by (simp add: list_all_iff)
  from element_text_total[OF this, of P] obtain t where t: "element_text P h (cs ! i) = Inr t"
    by blast
  have "k = a_size a - (i + 1)" using Suc.hyps(2) by simp
  from Suc.hyps(1)[OF this] lt ld t show ?case
    by (subst print_elements.simps) simp
qed

lemma print_value_total:
  assumes "intact d h v"
  shows "\<exists>t. print_value P h v = Inr t"
  using assms
proof (cases rule: intact_cases)
  case plain
  then show ?thesis by (intro plain_text(2))
next
  case (empty a d')
  then show ?thesis
    by (simp add: print_value_def member_a_def print_elements.simps)
next
  case (buffer a d' b cs)
  from print_elements_total[OF buffer(4,5,6,9), of P 0 "''Array[''"] buffer show ?thesis
    by (auto simp: print_value_def member_a_def)
qed

text \<open>
  A call of \<open>print\<close> that finds an argument for every \<open>{}\<close>, whose rendered arguments are
  intact, nested less deeply than the stack has room for, and reach no block twice: the
  call returns, and has freed the blocks of the arguments it rendered and nothing else.
\<close>

lemma print_total:
  "holes format \<le> length args \<Longrightarrow> d < stack_depth P \<Longrightarrow>
   list_all (intact d (heap s)) (taken format args) \<Longrightarrow>
   distinct (concat (map (blocks d (heap s)) (taken format args))) \<Longrightarrow>
   \<exists>s'. print P format args s = Inr s' \<and>
        heap s' = restrict_map (heap s) (- set (concat (map (blocks d (heap s)) (taken format args))))"
proof (induction P format args s rule: print.induct)
  case (1 P args s)
  then show ?case by (simp add: taken_def restrict_map_def)
next
  case (2 P c args s)
  then show ?case by (simp add: taken_def restrict_map_def)
next
  case (3 P c c' format args s)
  show ?case
  proof (cases "c = CHR ''{'' \<and> c' = CHR ''}''")
    case False
    then have t: "taken (c # c' # format) args = taken (c' # format) args"
      and h: "holes (c # c' # format) = holes (c' # format)"
      by (auto simp: taken_def)
    from "3.IH"(2)[OF False] "3.prems" False t h
    show ?thesis by auto
  next
    case True
    with "3.prems"(1) obtain val args' where Cons: "args = val # args'"
      and h': "holes format \<le> length args'"
      by (cases args) auto
    show ?thesis
    proof (cases "v_error val \<noteq> 0")
      case err: True
      with True Cons show ?thesis by (simp add: taken_def restrict_map_def)
    next
      case ok: False
      with True Cons have t: "taken (c # c' # format) args = val # taken format args'"
        by (simp add: taken_def)
      define h where "h = heap s"
      define B where "B = concat (map (blocks d h) (taken format args'))"
      from "3.prems"(3,4) t have iv: "intact d h val"
        and ir: "list_all (intact d h) (taken format args')"
        and dv: "distinct (blocks d h val)" and dr: "distinct B"
        and disj: "set (blocks d h val) \<inter> set B = {}"
        by (auto simp: h_def B_def)
      from print_value_total[OF iv, of P] obtain w where pv: "print_value P h val = Inr w"
        by blast
      define h1 where "h1 = restrict_map h (- set (blocks d h val))"
      from release_total[OF iv dv "3.prems"(2)] obtain val' where
        fv: "free_dynamic_value (stack_depth P) val h = Inr (val', h1)"
        by (auto simp: h1_def)
      define s1 where "s1 = s\<lparr>stdout := stdout s @ w, heap := h1\<rparr>"
      have each: "intact d h1 y \<and> blocks d h1 y = blocks d h y" if "y \<in> set (taken format args')" for y
      proof (rule intact_local)
        show "intact d h y" using ir that by (simp add: list_all_iff)
        show "\<forall>p\<in>set (blocks d h y). h1 p = h p"
        proof
          fix p
          assume "p \<in> set (blocks d h y)"
          with that have "p \<in> set B" by (auto simp: B_def)
          with disj have "p \<notin> set (blocks d h val)" by auto
          then show "h1 p = h p" by (simp add: h1_def)
        qed
      qed
      then have "map (blocks d h1) (taken format args') = map (blocks d h) (taken format args')"
        by (intro map_cong) auto
      then have m: "concat (map (blocks d h1) (taken format args')) = B"
        by (simp only: B_def)
      have p3: "list_all (intact d (heap s1)) (taken format args')"
        using each by (simp add: list_all_iff s1_def)
      have p4: "distinct (concat (map (blocks d (heap s1)) (taken format args')))"
        using dr by (simp add: s1_def m)
      from "3.IH"(1)[OF True Cons ok pv[unfolded h_def] fv[unfolded h_def] refl,
          folded s1_def, OF h' "3.prems"(2) p3 p4]
      obtain s' where r: "print P format args' s1 = Inr s'"
        "heap s' = restrict_map (heap s1) (- set (concat (map (blocks d (heap s1)) (taken format args'))))"
        by blast
      have run: "print P (c # c' # format) args s = Inr s'"
        using True Cons ok pv fv r(1) by (simp add: h_def s1_def)
      have "heap s' = restrict_map h1 (- set B)"
        using r(2) by (simp add: s1_def m)
      also have "\<dots> = restrict_map h (- (set (blocks d h val) \<union> set B))"
        by (auto simp: h1_def restrict_map_def fun_eq_iff)
      also have "\<dots> = restrict_map (heap s)
          (- set (concat (map (blocks d (heap s)) (taken (c # c' # format) args))))"
        by (simp add: t h_def B_def)
      finally show ?thesis using run by blast
    qed
  qed
qed

lemmas print_eval = array_get_def names_def names_state_def text_value_def array_value_def
  text_defs platform_defs free_dynamic_value_numeral free_dynamic_array.simps
  free_elements.simps c_free_def

lemmas shelf_eval = shelf_def shelf_state_def names_def array_value_def text_value_def
  int_value_def initial_state_def

lemma shelf_intact: "intact 2 (heap shelf_state) (array_value shelf)"
  by (simp add: numeral_2_eq_2 shelf_eval buffer_ok_def cells_of_def plain_def)

lemma shelf_blocks: "blocks 2 (heap shelf_state) (array_value shelf) = [4, 1, 2, 3, 5]"
  by (simp add: numeral_2_eq_2 shelf_eval own_block_def cells_of_def)

text \<open>
  Claim C10. \<open>print\<close> releases what it renders. First part: a call that finds an argument
  for every \<open>{}\<close>, whose rendered arguments are intact, nested less deeply than the stack
  has room for, and reach no block twice, returns; every block that belonged to one of the
  rendered arguments (the text of a string, the buffer of an array, and so on through the
  array's elements at every depth) was allocated and is freed, and every other block is as
  it was. Second part: whenever a call returns, whatever its arguments, every block that
  belonged to a rendered argument is no longer allocated. Third part: for the copy \<open>v\<close> of
  a string element that \<open>array_get\<close> returned, \<open>print("{}", v)\<close> returns, having written
  the text and freed it; \<open>array_get\<close> at that index still returns \<open>v\<close>, whose pointer now
  dangles.
\<close>

theorem print_takes_ownership:
  "(holes format \<le> length args \<longrightarrow> d < stack_depth P \<longrightarrow>
      list_all (intact d (heap s)) (taken format args) \<longrightarrow>
      distinct (concat (map (blocks d (heap s)) (taken format args))) \<longrightarrow>
      (\<exists>s1. print P format args s = Inr s1 \<and>
         (\<forall>p. heap s1 p =
            (if \<exists>v \<in> set (taken format args). owns (heap s) v p then None else heap s p)) \<and>
         (\<forall>v \<in> set (taken format args). \<forall>p. owns (heap s) v p \<longrightarrow> heap s p \<noteq> None))) \<and>
   (print P format args s = Inr s' \<longrightarrow> k < rendered format args \<longrightarrow>
      owns (heap s) (args ! k) p \<longrightarrow> heap s' p = None) \<and>
   (array_get (Some arr) i s = Inr (v, s) \<longrightarrow> v_error v = 0 \<longrightarrow> v_type v = EASS_STRING \<longrightarrow>
      v_value v = V_s (Some q) \<longrightarrow> heap s q = Some (Chars str) \<longrightarrow> 0 < stack_depth P \<longrightarrow>
      (\<exists>s2. print P ''{}'' [v] s = Inr s2 \<and> stdout s2 = stdout s @ str @ [newline] \<and>
            heap s2 q = None \<and> array_get (Some arr) i s2 = Inr (v, s2)))"
proof -
  have total: "\<exists>s1. print P format args s = Inr s1 \<and>
         (\<forall>p. heap s1 p =
            (if \<exists>v \<in> set (taken format args). owns (heap s) v p then None else heap s p)) \<and>
         (\<forall>v \<in> set (taken format args). \<forall>p. owns (heap s) v p \<longrightarrow> heap s p \<noteq> None)"
    if H: "holes format \<le> length args" "d < stack_depth P"
      "list_all (intact d (heap s)) (taken format args)"
      "distinct (concat (map (blocks d (heap s)) (taken format args)))"
  proof -
    from print_total[OF H] obtain s1 where r: "print P format args s = Inr s1"
      "heap s1 = restrict_map (heap s) (- set (concat (map (blocks d (heap s)) (taken format args))))"
      by blast
    have o: "owns (heap s) v p \<longleftrightarrow> p \<in> set (blocks d (heap s) v)"
      if "v \<in> set (taken format args)" for v p
      using H(3) that by (intro owns_iff_blocks) (simp add: list_all_iff)
    have live: "heap s p \<noteq> None" if "v \<in> set (taken format args)" "owns (heap s) v p" for v p
      using H(3) that o[OF that(1)] by (intro blocks_live[of d _ v]) (simp_all add: list_all_iff)
    have "heap s1 p =
        (if \<exists>v \<in> set (taken format args). owns (heap s) v p then None else heap s p)" for p
      using o by (auto simp: r(2) restrict_map_def)
    with r(1) live show ?thesis by blast
  qed
  show ?thesis
    using total print_releases[of P format args s s'] print_shallow_copy[of arr i s v q str P]
    by blast
qed

text \<open>
  On the array of an array and a string: printing it writes the string (the library
  prints nothing for an element that is an array) and frees the two buffers and the three
  texts, and the sixth block stays. On the array of two strings: printing the copy of
  element 1 frees that text under the array, and printing it again reads freed memory.
\<close>

theorem print_takes_ownership_witness:
  "(\<exists>s'. print desktop ''all: {}'' [array_value shelf] shelf_state = Inr s' \<and>
         stdout s' = ''all: Array[, Alan]'' @ [newline] \<and>
         heap s' 1 = None \<and> heap s' 2 = None \<and> heap s' 3 = None \<and> heap s' 4 = None \<and>
         heap s' 5 = None \<and> heap s' 6 = Some (Chars ''kept'')) \<and>
   (\<exists>s2. array_get (Some names) 1 names_state = Inr (text_value 3, names_state) \<and>
         print desktop ''{}'' [text_value 3] names_state = Inr s2 \<and>
         stdout s2 = ''Grace'' @ [newline] \<and> heap s2 3 = None \<and>
         array_get (Some names) 1 s2 = Inr (text_value 3, s2) \<and>
         print desktop ''{}'' [text_value 3] s2 = Inl Invalid_Pointer)"
proof -
  let ?h = "heap shelf_state"
  have t: "taken ''all: {}'' [array_value shelf] = [array_value shelf]"
    by (simp add: taken_def array_value_def)
  have 1: "holes ''all: {}'' \<le> length [array_value shelf]" by simp
  have 2: "2 < stack_depth desktop" by (simp add: desktop_def)
  have 3: "list_all (intact 2 ?h) (taken ''all: {}'' [array_value shelf])"
    by (simp add: t shelf_intact)
  have 4: "distinct (concat (map (blocks 2 ?h) (taken ''all: {}'' [array_value shelf])))"
    by (simp add: t shelf_blocks)
  from print_takes_ownership[THEN conjunct1, rule_format, OF 1 2 3 4] obtain s' where
    run: "print desktop ''all: {}'' [array_value shelf] shelf_state = Inr s'"
    and hp: "\<And>p. heap s' p =
      (if \<exists>v \<in> set (taken ''all: {}'' [array_value shelf]). owns ?h v p then None else ?h p)"
    by blast
  have o: "owns ?h (array_value shelf) p \<longleftrightarrow> p \<in> {4, 1, 2, 3, 5}" for p
    using owns_iff_blocks[OF shelf_intact, of p] by (simp add: shelf_blocks)
  have freed: "heap s' p = (if p \<in> {4, 1, 2, 3, 5} then None else ?h p)" for p
    using hp[of p] by (simp add: t o)
  have out: "stdout s' = ''all: Array[, Alan]'' @ [newline]"
    using run by (auto simp: shelf_eval print_eval)
  have first: "\<exists>s'. print desktop ''all: {}'' [array_value shelf] shelf_state = Inr s' \<and>
         stdout s' = ''all: Array[, Alan]'' @ [newline] \<and>
         heap s' 1 = None \<and> heap s' 2 = None \<and> heap s' 3 = None \<and> heap s' 4 = None \<and>
         heap s' 5 = None \<and> heap s' 6 = Some (Chars ''kept'')"
    using run out freed[of 1] freed[of 2] freed[of 3] freed[of 4] freed[of 5] freed[of 6]
    by (simp add: shelf_state_def)
  have g: "array_get (Some names) 1 names_state = Inr (text_value 3, names_state)"
    by (simp add: print_eval)
  have l: "heap names_state 3 = Some (Chars ''Grace'')" and d: "0 < stack_depth desktop"
    by (simp_all add: names_state_def desktop_def)
  have tv: "v_error (text_value 3) = 0" "v_type (text_value 3) = EASS_STRING"
    "v_value (text_value 3) = V_s (Some 3)"
    by (simp_all add: text_value_def)
  from print_takes_ownership[THEN conjunct2, THEN conjunct2, rule_format, OF g tv l d]
  obtain s2 where s2: "print desktop ''{}'' [text_value 3] names_state = Inr s2"
    "stdout s2 = stdout names_state @ ''Grace'' @ [newline]" "heap s2 3 = None"
    "array_get (Some names) 1 s2 = Inr (text_value 3, s2)"
    by blast
  have "print desktop ''{}'' [text_value 3] s2 = Inl Invalid_Pointer"
    using s2(3) by (simp add: text_value_def print_value_def text_s_def member_s_def read_chars_def)
  with s2 g have "\<exists>s2. array_get (Some names) 1 names_state = Inr (text_value 3, names_state) \<and>
         print desktop ''{}'' [text_value 3] names_state = Inr s2 \<and>
         stdout s2 = ''Grace'' @ [newline] \<and> heap s2 3 = None \<and>
         array_get (Some names) 1 s2 = Inr (text_value 3, s2) \<and>
         print desktop ''{}'' [text_value 3] s2 = Inl Invalid_Pointer"
    by (auto simp: names_state_def initial_state_def)
  with first show ?thesis by blast
qed

end
